theory Spec2Isabelle
  imports Complex_Main "HOL-Library.Multiset"
begin

section \<open>Numbers and errors\<close>

text \<open>
  The notebooks compute with Python and numpy double-precision numbers. Most of
  this theory models them as \<^typ>\<open>real\<close>: a theorem about such a definition is a
  statement about the exact arithmetic the code approximates, and says nothing
  about rounding, overflow, \<open>inf\<close> or \<open>nan\<close>. Where rounding decides a statement,
  the weighted average is modelled a second time over the type \<open>double\<close> below,
  which rounds every operation as the machine does. Python integers (lengths,
  indices, counts) are \<^typ>\<open>nat\<close> or \<^typ>\<open>int\<close>.

  An exception is a value \<open>Inl e\<close> of a sum type. \<open>ZeroDivisionError\<close> is what
  Python raises for a float division by zero; \<open>IndexError\<close> is an index out of
  range; \<open>ValueError\<close> and \<open>EmptyInput\<close> belong to the percentile of the
  upper limit and to the reading of a chain file.
\<close>

datatype error = ZeroDivisionError | IndexError | ValueError | EmptyInput

section \<open>The weighted average\<close>

text \<open>
  \<^verbatim>\<open>
  def weightedavg(rho, sig):
      weights, avg = 0., 0.
      for r,s in zip(rho,sig):
          weights += 1./(s*s)
          avg += r/(s*s)
      return avg/weights, np.sqrt(1./weights)
  \<close>
  The loop runs over \<open>zip(rho, sig)\<close>, which stops at the shorter sequence. A
  division by zero is Python's \<open>ZeroDivisionError\<close>: that is what the final
  \<open>avg/weights\<close> raises when the loop body never ran (both accumulators are
  still the Python floats \<open>0.\<close>). Inside the loop the same error is raised for
  Python floats with \<open>s*s = 0\<close>; numpy scalars give \<open>inf\<close> there instead, which
  the real numbers do not have, so the theorems about the loop assume the
  uncertainties are not zero.
\<close>

fun weightedavg_loop :: "real \<times> real \<Rightarrow> (real \<times> real) list \<Rightarrow> error + real \<times> real" where
  "weightedavg_loop (weights, avg) [] = Inr (weights, avg)"
| "weightedavg_loop (weights, avg) ((r, s) # rest) =
     (if s * s = 0 then Inl ZeroDivisionError
      else weightedavg_loop (weights + 1 / (s * s), avg + r / (s * s)) rest)"

definition weightedavg :: "real list \<Rightarrow> real list \<Rightarrow> error + real \<times> real" where
  "weightedavg rho sig =
     (case weightedavg_loop (0, 0) (zip rho sig) of
        Inl e \<Rightarrow> Inl e
      | Inr (weights, avg) \<Rightarrow>
          if weights = 0 then Inl ZeroDivisionError
          else Inr (avg / weights, sqrt (1 / weights)))"

section \<open>Double-precision numbers\<close>

text \<open>
  A numpy \<open>float64\<close>: a finite value, one of the two infinities, or \<open>nan\<close>. A
  finite value is the real number it stands for; the sign of a zero is not kept
  (every divisor in the code modelled here is a square, a sum of reciprocals of
  squares or its initial \<open>0.\<close>, so a zero divisor is never negative).
\<close>

datatype double = Finite real | PInf | NInf | NaN

text \<open>
  \<open>ilog2 x\<close> is \<open>floor (log2 x)\<close> for a positive \<open>x\<close>, found by comparing with
  powers of two: \<open>bits_for\<close> collects the exponents \<open>1, 2, 4, ...\<close> up to the size of
  \<open>x\<close>, and \<open>log2_floor\<close> divides the largest fitting powers out. The result is
  exact between \<open>2^-2047\<close> and \<open>2^2048\<close> and stays at the end of that range beyond
  it, which is as good for what follows.
\<close>

fun log2_floor :: "nat list \<Rightarrow> real \<Rightarrow> int" where
  "log2_floor [] x = 0"
| "log2_floor (k # ks) x =
     (if 2 ^ k \<le> x then int k + log2_floor ks (x / 2 ^ k) else log2_floor ks x)"

fun bits_for :: "nat list \<Rightarrow> nat list \<Rightarrow> real \<Rightarrow> nat list" where
  "bits_for acc [] x = acc"
| "bits_for acc (k # ks) x = (if x < 2 ^ k then acc else bits_for (k # acc) ks x)"

definition log2_ge1 :: "real \<Rightarrow> int" where
  "log2_ge1 x = log2_floor (bits_for [] [1, 2, 4, 8, 16, 32, 64, 128, 256, 512, 1024] x) x"

definition pow2 :: "int \<Rightarrow> real" where
  "pow2 e = (if 0 \<le> e then 2 ^ nat e else 1 / 2 ^ nat (- e))"

definition neg_log2 :: "real \<Rightarrow> int \<Rightarrow> int" where
  "neg_log2 x l = (if x * pow2 l = 1 then - l else - l - 1)"

definition ilog2 :: "real \<Rightarrow> int" where
  "ilog2 x = (if 1 \<le> x then log2_ge1 x else neg_log2 x (log2_ge1 (1 / x)))"

text \<open>
  Rounding to the nearest double, ties to the even significand. \<open>rne\<close> rounds a
  real to the nearest integer, ties to even. A double has 53 significant bits and
  a spacing of at least \<open>2^-1074\<close>, so \<open>x\<close> is rounded as a multiple of \<open>2^e\<close> with
  \<open>e = max (floor (log2 |x|) - 52) (-1074)\<close>; a result of \<open>2^1024\<close> or more is an
  infinity.
\<close>

definition rne :: "real \<Rightarrow> int" where
  "rne m =
     (if m - of_int \<lfloor>m\<rfloor> < 1 / 2 then \<lfloor>m\<rfloor>
      else if 1 / 2 < m - of_int \<lfloor>m\<rfloor> then \<lfloor>m\<rfloor> + 1
      else if even \<lfloor>m\<rfloor> then \<lfloor>m\<rfloor>
      else \<lfloor>m\<rfloor> + 1)"

definition exponent :: "real \<Rightarrow> int" where
  "exponent a = max (ilog2 a - 52) (- 1074)"

definition pack :: "real \<Rightarrow> int \<Rightarrow> int \<Rightarrow> double" where
  "pack x e m =
     (if 971 < e \<or> (e = 971 \<and> 2 ^ 53 \<le> m) then (if 0 < x then PInf else NInf)
      else Finite (sgn x * (of_int m * pow2 e)))"

definition quantize :: "real \<Rightarrow> int \<Rightarrow> double" where
  "quantize x e = pack x e (rne (\<bar>x\<bar> / pow2 e))"

definition round_double :: "real \<Rightarrow> double" where
  "round_double x = (if x = 0 then Finite 0 else quantize x (exponent \<bar>x\<bar>))"

text \<open>
  The four operations of the weighted average on doubles: the exact result of
  finite operands is rounded, and infinities, \<open>nan\<close> and a division by zero
  follow IEEE 754, as numpy scalars do (numpy warns and does not raise).
\<close>

fun dadd :: "double \<Rightarrow> double \<Rightarrow> double" where
  "dadd (Finite a) (Finite b) = round_double (a + b)"
| "dadd NaN y = NaN"
| "dadd x NaN = NaN"
| "dadd PInf NInf = NaN"
| "dadd NInf PInf = NaN"
| "dadd PInf y = PInf"
| "dadd NInf y = NInf"
| "dadd x PInf = PInf"
| "dadd x NInf = NInf"

fun dmul :: "double \<Rightarrow> double \<Rightarrow> double" where
  "dmul (Finite a) (Finite b) = round_double (a * b)"
| "dmul NaN y = NaN"
| "dmul x NaN = NaN"
| "dmul (Finite a) PInf = (if a = 0 then NaN else if 0 < a then PInf else NInf)"
| "dmul (Finite a) NInf = (if a = 0 then NaN else if 0 < a then NInf else PInf)"
| "dmul PInf (Finite b) = (if b = 0 then NaN else if 0 < b then PInf else NInf)"
| "dmul NInf (Finite b) = (if b = 0 then NaN else if 0 < b then NInf else PInf)"
| "dmul PInf PInf = PInf"
| "dmul NInf NInf = PInf"
| "dmul PInf NInf = NInf"
| "dmul NInf PInf = NInf"

fun ddiv :: "double \<Rightarrow> double \<Rightarrow> double" where
  "ddiv (Finite a) (Finite b) =
     (if b = 0 then (if a = 0 then NaN else if 0 < a then PInf else NInf)
      else round_double (a / b))"
| "ddiv NaN y = NaN"
| "ddiv x NaN = NaN"
| "ddiv (Finite a) y = Finite 0"
| "ddiv PInf (Finite b) = (if 0 \<le> b then PInf else NInf)"
| "ddiv NInf (Finite b) = (if 0 \<le> b then NInf else PInf)"
| "ddiv x y = NaN"

fun dsqrt :: "double \<Rightarrow> double" where
  "dsqrt (Finite a) = (if a < 0 then NaN else round_double (sqrt a))"
| "dsqrt PInf = PInf"
| "dsqrt x = NaN"

section \<open>The weighted average in double precision\<close>

text \<open>
  \<open>weightedavg\<close> once more, over doubles, for \<open>rho\<close> and \<open>sig\<close> that are numpy
  arrays, as the notebook passes them. Every operation of the loop and of the
  \<open>return\<close> line is rounded where it stands. The final \<open>avg/weights\<close> raises
  \<open>ZeroDivisionError\<close> only when the loop body never ran, since both operands
  are then still Python floats.
\<close>

fun weightedavg_f64_loop :: "double \<times> double \<Rightarrow> (double \<times> double) list \<Rightarrow> double \<times> double" where
  "weightedavg_f64_loop (weights, avg) [] = (weights, avg)"
| "weightedavg_f64_loop (weights, avg) ((r, s) # rest) =
     weightedavg_f64_loop
       (dadd weights (ddiv (Finite 1) (dmul s s)), dadd avg (ddiv r (dmul s s))) rest"

definition weightedavg_f64 :: "double list \<Rightarrow> double list \<Rightarrow> error + double \<times> double" where
  "weightedavg_f64 rho sig =
     (if zip rho sig = [] then Inl ZeroDivisionError
      else
        (case weightedavg_f64_loop (Finite 0, Finite 0) (zip rho sig) of
           (weights, avg) \<Rightarrow> Inr (ddiv avg weights, dsqrt (ddiv (Finite 1) weights))))"

section \<open>Fixed-width binning\<close>

text \<open>
  \<^verbatim>\<open>
  def bin_crosscorr(zeta, xi, rho, sig):
      rho_avg, sig_avg = np.zeros(len(zeta)), np.zeros(len(zeta))
      for i,z in enumerate(zeta[:-1]):
          myrhos, mysigs = [], []
          for x,r,s in zip(xi,rho,sig):
              if x >= z and x < (z+10.):
                  myrhos.append(r)
                  mysigs.append(s)
          rho_avg[i], sig_avg[i] = weightedavg(myrhos, mysigs)
      return rho_avg, sig_avg
  \<close>
  \<open>in_bin z x\<close> is the test of the inner loop and \<open>bin_pairs\<close> the triples
  it selects, in the order of the input; \<open>myrhos\<close> and \<open>mysigs\<close> are their
  second and third components. The outer loop runs over all entries of \<open>zeta\<close>
  but the last and writes slot \<open>i\<close> of the two result arrays, which have one
  slot for every entry of \<open>zeta\<close> and start filled with zeros. An exception of
  \<open>weightedavg\<close> ends the whole call.
\<close>

definition in_bin :: "real \<Rightarrow> real \<Rightarrow> bool" where
  "in_bin z x \<longleftrightarrow> x \<ge> z \<and> x < z + 10"

definition bin_pairs ::
  "real \<Rightarrow> real list \<Rightarrow> real list \<Rightarrow> real list \<Rightarrow> (real \<times> real \<times> real) list" where
  "bin_pairs z xi rho sig = filter (\<lambda>(x, r, s). in_bin z x) (zip xi (zip rho sig))"

definition myrhos :: "real \<Rightarrow> real list \<Rightarrow> real list \<Rightarrow> real list \<Rightarrow> real list" where
  "myrhos z xi rho sig = map (\<lambda>(x, r, s). r) (bin_pairs z xi rho sig)"

definition mysigs :: "real \<Rightarrow> real list \<Rightarrow> real list \<Rightarrow> real list \<Rightarrow> real list" where
  "mysigs z xi rho sig = map (\<lambda>(x, r, s). s) (bin_pairs z xi rho sig)"

fun bin_crosscorr_loop ::
  "(nat \<times> real) list \<Rightarrow> real list \<Rightarrow> real list \<Rightarrow> real list \<Rightarrow>
   real list \<times> real list \<Rightarrow> error + real list \<times> real list" where
  "bin_crosscorr_loop [] xi rho sig (ravg, savg) = Inr (ravg, savg)"
| "bin_crosscorr_loop ((i, z) # rest) xi rho sig (ravg, savg) =
     (case weightedavg (myrhos z xi rho sig) (mysigs z xi rho sig) of
        Inl e \<Rightarrow> Inl e
      | Inr (r, s) \<Rightarrow> bin_crosscorr_loop rest xi rho sig (ravg[i := r], savg[i := s]))"

definition bin_crosscorr ::
  "real list \<Rightarrow> real list \<Rightarrow> real list \<Rightarrow> real list \<Rightarrow> error + real list \<times> real list" where
  "bin_crosscorr zeta xi rho sig =
     bin_crosscorr_loop (enumerate 0 (butlast zeta)) xi rho sig
       (replicate (length zeta) 0, replicate (length zeta) 0)"

section \<open>Fixed-count binning\<close>

text \<open>
  \<^verbatim>\<open>
  idx = np.argsort(xi)
  xi_sorted = xi[idx]
  rho_sorted = rho[idx]
  sig_sorted = sig[idx]

  npairs = 66
  xi_mean = []
  xi_err = []
  rho_avg = []
  sig_avg = []

  i = 0
  while i < len(xi_sorted):
      xi_mean.append(np.mean(xi_sorted[i:npairs+i]))
      xi_err.append(np.std(xi_sorted[i:npairs+i]))
      r, s = weightedavg(rho_sorted[i:npairs+i], sig_sorted[i:npairs+i])
      rho_avg.append(r)
      sig_avg.append(s)
      i += npairs
  \<close>
  \<open>np.argsort\<close> belongs to numpy, not to the notebook. The notebook calls it with
  the default sort kind, for which numpy promises an index array that sorts
  \<open>xi\<close> and nothing about the order of equal keys. The model therefore takes
  the index array \<open>idx\<close> as an input, and \<open>argsort_of xi idx\<close> is the promise:
  \<open>idx\<close> lists every position of \<open>xi\<close> once and reads \<open>xi\<close> in ascending
  order.
\<close>

definition argsort_of :: "real list \<Rightarrow> nat list \<Rightarrow> bool" where
  "argsort_of xi idx \<longleftrightarrow>
     mset idx = mset [0..<length xi] \<and> sorted (map (\<lambda>i. xi ! i) idx)"

text \<open>
  \<open>a[idx]\<close> for an index array: the entries of \<open>a\<close> at the positions \<open>idx\<close>,
  \<open>IndexError\<close> when a position is out of range.
\<close>

definition fancy_index :: "'a list \<Rightarrow> nat list \<Rightarrow> error + 'a list" where
  "fancy_index a idx =
     (if list_all (\<lambda>i. i < length a) idx then Inr (map (\<lambda>i. a ! i) idx)
      else Inl IndexError)"

text \<open>The slice \<open>a[i:j]\<close> for indices that are not negative.\<close>

definition py_slice :: "'a list \<Rightarrow> nat \<Rightarrow> nat \<Rightarrow> 'a list" where
  "py_slice a i j = take (j - i) (drop i a)"

text \<open>
  \<open>np.mean\<close> and \<open>np.std\<close> (the population standard deviation) of a slice.
  The loop only keeps them for a slice that is not empty.
\<close>

definition np_mean :: "real list \<Rightarrow> real" where
  "np_mean a = sum_list a / real (length a)"

definition np_std :: "real list \<Rightarrow> real" where
  "np_std a = sqrt (np_mean (map (\<lambda>x. (x - np_mean a)\<^sup>2) a))"

text \<open>
  The four result lists of the loop. The field \<open>members\<close> is not in the source:
  it is a history variable that records, for every bin, the triples of the three
  slices the iteration reads, so that the membership of the bins can be
  stated. No other field depends on it.
\<close>

record bins =
  xi_mean :: "real list"
  xi_err :: "real list"
  rho_avg :: "real list"
  sig_avg :: "real list"
  members :: "(real \<times> real \<times> real) list list"

definition no_bins :: bins where
  "no_bins = \<lparr>xi_mean = [], xi_err = [], rho_avg = [], sig_avg = [], members = []\<rparr>"

definition add_bin :: "bins \<Rightarrow> real list \<Rightarrow> real list \<Rightarrow> real list \<Rightarrow> real \<Rightarrow> real \<Rightarrow> bins" where
  "add_bin st xs rs ss r s =
     st\<lparr>xi_mean := xi_mean st @ [np_mean xs],
        xi_err := xi_err st @ [np_std xs],
        rho_avg := rho_avg st @ [r],
        sig_avg := sig_avg st @ [s],
        members := members st @ [zip xs (zip rs ss)]\<rparr>"

text \<open>
  The \<open>while\<close> loop. With \<open>npairs = 0\<close> the slices are empty and the first
  iteration ends in the \<open>ZeroDivisionError\<close> of \<open>weightedavg\<close>; otherwise
  \<open>i\<close> grows in every iteration, so the loop always ends.
\<close>

function bin_loop ::
  "nat \<Rightarrow> real list \<Rightarrow> real list \<Rightarrow> real list \<Rightarrow> nat \<Rightarrow> bins \<Rightarrow> error + bins" where
  "bin_loop n xi_sorted rho_sorted sig_sorted i st =
     (if i < length xi_sorted then
        (case weightedavg (py_slice rho_sorted i (n + i)) (py_slice sig_sorted i (n + i)) of
           Inl e \<Rightarrow> Inl e
         | Inr (r, s) \<Rightarrow>
             bin_loop n xi_sorted rho_sorted sig_sorted (i + n)
               (add_bin st (py_slice xi_sorted i (n + i)) (py_slice rho_sorted i (n + i))
                  (py_slice sig_sorted i (n + i)) r s))
      else Inr st)"
  by pat_completeness auto
termination
proof (relation "measure (\<lambda>(n, xi_sorted, rho_sorted, sig_sorted, i, st). length xi_sorted - i)")
  show "wf (measure (\<lambda>(n, xi_sorted, rho_sorted, sig_sorted, i, st). length xi_sorted - i))"
    by simp
next
  fix n :: nat and xi_sorted rho_sorted sig_sorted :: "real list" and i :: nat
    and st :: bins and x2 :: "real \<times> real" and x y :: real
  assume i: "i < length xi_sorted"
    and ok: "weightedavg (py_slice rho_sorted i (n + i)) (py_slice sig_sorted i (n + i)) = Inr x2"
  have "n \<noteq> 0"
  proof
    assume "n = 0"
    with ok show False by (simp add: weightedavg_def py_slice_def)
  qed
  with i show "((n, xi_sorted, rho_sorted, sig_sorted, i + n,
                 add_bin st (py_slice xi_sorted i (n + i)) (py_slice rho_sorted i (n + i))
                   (py_slice sig_sorted i (n + i)) x y),
                n, xi_sorted, rho_sorted, sig_sorted, i, st)
              \<in> measure (\<lambda>(n, xi_sorted, rho_sorted, sig_sorted, i, st). length xi_sorted - i)"
    by simp
qed

text \<open>
  The cell as a whole, for a pair count \<open>n\<close>, and with the notebook's constant
  \<open>npairs = 66\<close>.
\<close>

definition fixed_count_binning ::
  "nat list \<Rightarrow> nat \<Rightarrow> real list \<Rightarrow> real list \<Rightarrow> real list \<Rightarrow> error + bins" where
  "fixed_count_binning idx n xi rho sig =
     (case fancy_index xi idx of
        Inl e \<Rightarrow> Inl e
      | Inr xi_sorted \<Rightarrow>
          (case fancy_index rho idx of
             Inl e \<Rightarrow> Inl e
           | Inr rho_sorted \<Rightarrow>
               (case fancy_index sig idx of
                  Inl e \<Rightarrow> Inl e
                | Inr sig_sorted \<Rightarrow> bin_loop n xi_sorted rho_sorted sig_sorted 0 no_bins)))"

definition npairs :: nat where
  "npairs = 66"

text \<open>
  The pair \<open>r, s\<close> that the iteration starting at \<open>i\<close> appends to \<open>rho_avg\<close> and
  \<open>sig_avg\<close>, in double precision:
  \<open>weightedavg(rho_sorted[i:npairs+i], sig_sorted[i:npairs+i])\<close> for the arrays
  sorted through \<open>idx\<close>.
\<close>

definition bin_avg_f64 ::
  "nat list \<Rightarrow> nat \<Rightarrow> nat \<Rightarrow> double list \<Rightarrow> double list \<Rightarrow> error + double \<times> double" where
  "bin_avg_f64 idx n i rho sig =
     (case fancy_index rho idx of
        Inl e \<Rightarrow> Inl e
      | Inr rho_sorted \<Rightarrow>
          (case fancy_index sig idx of
             Inl e \<Rightarrow> Inl e
           | Inr sig_sorted \<Rightarrow>
               weightedavg_f64 (py_slice rho_sorted i (n + i)) (py_slice sig_sorted i (n + i))))"

section \<open>The Hellings-Downs curve\<close>

text \<open>
  \<^verbatim>\<open>
  def get_HD_curve(zeta):
      coszeta = np.cos(zeta*np.pi/180.)
      xip = (1.-coszeta) / 2.
      HD = 3.*( 1./3. + xip * ( np.log(xip) -1./6.) )
      return HD/2
  \<close>
  Where \<open>xip = 0\<close> numpy computes \<open>log(0) = -inf\<close> and then \<open>0 * -inf = nan\<close>: the
  function has no value there, and the model returns \<open>None\<close>.
\<close>

definition get_HD_curve :: "real \<Rightarrow> real option" where
  "get_HD_curve zeta =
     (let coszeta = cos (zeta * pi / 180);
          xip = (1 - coszeta) / 2
      in if xip = 0 then None
         else Some (3 * (1 / 3 + xip * (ln xip - 1 / 6)) / 2))"

section \<open>Discarding the burn-in\<close>

text \<open>
  \<^verbatim>\<open>
  chain = np.loadtxt(chaindir + '/chain_1.txt')
  burn = int(0.25 * chain.shape[0])
  chain_burn = chain[burn:,:]
  \<close>
  \<open>np.loadtxt\<close> belongs to numpy. A chain file is a list of rows of numbers, each
  row with at least one number. By numpy's documentation \<open>loadtxt\<close> refuses rows
  of different lengths with a \<open>ValueError\<close> and squeezes the table it has read:
  a file without rows gives an empty one-dimensional array, a file with one row
  or with one column a one-dimensional array (a single number a zero-dimensional
  one), and only a file with at least two rows and two columns a two-dimensional
  array.
\<close>

datatype ndarray = Scalar real | Vector "real list" | Matrix "real list list"

definition loadtxt :: "real list list \<Rightarrow> error + ndarray" where
  "loadtxt rows =
     (case rows of
        [] \<Rightarrow> Inr (Vector [])
      | r # rs \<Rightarrow>
          if list_ex (\<lambda>r'. length r' \<noteq> length r) rs then Inl ValueError
          else if length r = 1 then
            (if rs = [] then Inr (Scalar (hd r)) else Inr (Vector (map hd rows)))
          else if rs = [] then Inr (Vector r)
          else Inr (Matrix rows))"

text \<open>
  \<open>chain.shape[0]\<close>: the length of the first axis; a zero-dimensional array has
  an empty shape, and the index raises.
\<close>

definition shape0 :: "ndarray \<Rightarrow> error + nat" where
  "shape0 chain =
     (case chain of
        Scalar x \<Rightarrow> Inl IndexError
      | Vector v \<Rightarrow> Inr (length v)
      | Matrix rows \<Rightarrow> Inr (length rows))"

text \<open>
  \<open>int\<close> truncates towards zero. The slice \<open>a[b:]\<close> follows Python: a negative
  start counts from the end, and a start beyond either end is moved to that end.
\<close>

definition py_int :: "real \<Rightarrow> int" where
  "py_int x = (if 0 \<le> x then \<lfloor>x\<rfloor> else \<lceil>x\<rceil>)"

definition slice_from :: "int \<Rightarrow> 'a list \<Rightarrow> 'a list" where
  "slice_from b a =
     (let n = int (length a);
          start = (if b < 0 then max (n + b) 0 else min b n)
      in drop (nat start) a)"

definition burn :: "ndarray \<Rightarrow> error + int" where
  "burn chain =
     (case shape0 chain of
        Inl e \<Rightarrow> Inl e
      | Inr n \<Rightarrow> Inr (py_int (0.25 * real n)))"

text \<open>
  \<open>chain[burn:,:]\<close> indexes two axes, which an array of fewer dimensions does
  not have: numpy raises \<open>IndexError\<close>.
\<close>

definition chain_burn :: "ndarray \<Rightarrow> error + real list list" where
  "chain_burn chain =
     (case burn chain of
        Inl e \<Rightarrow> Inl e
      | Inr b \<Rightarrow>
          (case chain of
             Matrix rows \<Rightarrow> Inr (slice_from b rows)
           | Vector v \<Rightarrow> Inl IndexError
           | Scalar x \<Rightarrow> Inl IndexError))"

text \<open>The three lines together, from the rows of the chain file.\<close>

definition trim :: "real list list \<Rightarrow> error + real list list" where
  "trim rows =
     (case loadtxt rows of
        Inl e \<Rightarrow> Inl e
      | Inr chain \<Rightarrow> chain_burn chain)"

section \<open>The upper limit\<close>

text \<open>
  \<^verbatim>\<open>
  upper = 10**np.percentile(chain[burn:, -5], q=95)
  \<close>
  The samples are a column of the chain after the burn-in cut.
\<close>

text \<open>
  Modelled from the spec: \<open>np.percentile\<close> is a numpy function, and its code is
  not in the repository. The specification describes it as the requested quantile
  "computed via linear interpolation between order statistics", which fails on an
  empty sample; numpy refuses a percentile outside \<open>[0, 100]\<close> with a
  \<open>ValueError\<close>. For \<open>n\<close> sorted samples \<open>a\<close> the position of the percentile \<open>q\<close> is
  \<open>h = (n - 1) * q / 100\<close>, and the result interpolates between \<open>a[floor h]\<close> and
  its successor.
\<close>

definition percentile :: "real list \<Rightarrow> real \<Rightarrow> error + real" where
  "percentile samples q =
     (if q < 0 \<or> 100 < q then Inl ValueError
      else if samples = [] then Inl EmptyInput
      else
        (let a = sort samples;
             n = length a;
             h = real (n - 1) * q / 100;
             lo = nat \<lfloor>h\<rfloor>;
             hi = min (lo + 1) (n - 1)
         in Inr (a ! lo + (h - real lo) * (a ! hi - a ! lo))))"

text \<open>
  The upper limit of a column of log-amplitude samples at the percentile \<open>q\<close>;
  the source fixes \<open>q = 95\<close>.
\<close>

definition upper :: "real list \<Rightarrow> real \<Rightarrow> error + real" where
  "upper samples q =
     (case percentile samples q of Inl e \<Rightarrow> Inl e | Inr p \<Rightarrow> Inr (10 powr p))"

section \<open>Properties of the weighted average\<close>

lemma weightedavg_loop_sums:
  "list_all (\<lambda>(r, s). s \<noteq> 0) ps \<Longrightarrow>
   weightedavg_loop (w, a) ps =
     Inr (w + (\<Sum>(r, s)\<leftarrow>ps. 1 / (s * s)), a + (\<Sum>(r, s)\<leftarrow>ps. r / (s * s)))"
proof (induction ps arbitrary: w a)
  case Nil
  then show ?case by simp
next
  case (Cons p ps)
  obtain r s where p: "p = (r, s)" by (cases p)
  from Cons.prems p have s: "s \<noteq> 0" and rest: "list_all (\<lambda>(r, s). s \<noteq> 0) ps"
    by simp_all
  show ?case
    using s by (simp add: p Cons.IH [OF rest] add.assoc)
qed

lemma zip_sum_nth:
  "length rho = length sig \<Longrightarrow>
   (\<Sum>(r, s)\<leftarrow>zip rho sig. f r s) = (\<Sum>i<length rho. f (rho ! i) (sig ! i) :: real)"
  by (simp add: sum_list_sum_nth atLeast0LessThan)

lemma weights_pos:
  assumes "rho \<noteq> []" "length rho = length sig" "\<forall>s\<in>set sig. s \<noteq> 0"
  shows "0 < (\<Sum>i<length (rho::real list). 1 / (sig ! i * sig ! i :: real))"
proof (rule sum_pos)
  show "finite {..<length rho}" by simp
  show "{..<length rho} \<noteq> {}" using assms(1) by auto
  fix i assume "i \<in> {..<length rho}"
  then have "sig ! i \<in> set sig" using assms(2) by simp
  then have "sig ! i \<noteq> 0" using assms(3) by blast
  then show "0 < 1 / (sig ! i * sig ! i)" by (auto simp: zero_less_mult_iff)
qed

lemma weightedavg_index_form:
  assumes "rho \<noteq> []" "length rho = length sig" "\<forall>s\<in>set sig. s \<noteq> 0"
  shows "weightedavg rho sig =
     Inr ((\<Sum>i<length rho. rho ! i / (sig ! i * sig ! i)) / (\<Sum>i<length rho. 1 / (sig ! i * sig ! i)),
          sqrt (1 / (\<Sum>i<length rho. 1 / (sig ! i * sig ! i))))"
proof -
  have nz: "list_all (\<lambda>(r, s). s \<noteq> 0) (zip rho sig)"
    using assms(3) by (auto simp: list_all_iff dest: set_zip_rightD)
  have pos: "0 < (\<Sum>i<length rho. 1 / (sig ! i * sig ! i))"
    by (rule weights_pos [OF assms])
  show ?thesis
    using pos
    by (simp add: weightedavg_def weightedavg_loop_sums [OF nz] zip_sum_nth [OF assms(2)])
qed

text \<open>
  C1. For sequences \<open>rho\<close> and \<open>sig\<close> of the same length, not empty, with every
  uncertainty positive, \<open>weightedavg\<close> returns the pair of
  \<open>\<Sum>(rho\<^sub>i / sig\<^sub>i\<^sup>2) / \<Sum>(1 / sig\<^sub>i\<^sup>2)\<close> and \<open>sqrt (1 / \<Sum>(1 / sig\<^sub>i\<^sup>2))\<close>: the accumulating
  loop computes the closed form.
\<close>

theorem weightedavg_closed_form:
  assumes "rho \<noteq> []" "length rho = length sig" "\<forall>s\<in>set sig. 0 < s"
  shows "weightedavg rho sig =
     Inr ((\<Sum>i<length rho. rho ! i / (sig ! i)\<^sup>2) / (\<Sum>i<length rho. 1 / (sig ! i)\<^sup>2),
          sqrt (1 / (\<Sum>i<length rho. 1 / (sig ! i)\<^sup>2)))"
proof -
  have "\<forall>s\<in>set sig. s \<noteq> 0" using assms(3) by fastforce
  from weightedavg_index_form [OF assms(1,2) this] show ?thesis
    by (simp add: power2_eq_square)
qed

theorem weightedavg_closed_form_witness:
  "[1, 3] \<noteq> ([]::real list) \<and> length [1, 3::real] = length [1, 1::real] \<and>
   list_all (\<lambda>s. 0 < s) [1, 1::real] \<and>
   weightedavg [1, 3] [1, 1] = Inr (2, sqrt (1 / 2))"
proof -
  have h1: "[1, 3] \<noteq> ([]::real list)" by simp
  have h2: "length [1, 3::real] = length [1, 1::real]" by simp
  have h3: "\<forall>s\<in>set [1, 1::real]. 0 < s" by simp
  have "weightedavg [1, 3] [1, 1] = Inr (2, sqrt (1 / 2))"
    using weightedavg_closed_form [OF h1 h2 h3] by (simp add: lessThan_Suc numeral_2_eq_2)
  with h1 h2 show ?thesis by simp
qed

text \<open>
  C7, in exact arithmetic. Under the same conditions the mean of the weighted
  average, computed without rounding, lies between the smallest and the largest
  entry of \<open>rho\<close>.
\<close>

theorem weightedavg_within_range:
  assumes "rho \<noteq> []" "length rho = length sig" "\<forall>s\<in>set sig. 0 < s"
  shows "\<exists>mu sigma_mu. weightedavg rho sig = Inr (mu, sigma_mu) \<and>
           Min (set rho) \<le> mu \<and> mu \<le> Max (set rho)"
proof -
  let ?w = "\<lambda>i. 1 / (sig ! i * sig ! i)"
  let ?W = "\<Sum>i<length rho. ?w i"
  let ?A = "\<Sum>i<length rho. rho ! i / (sig ! i * sig ! i)"
  have nz: "\<forall>s\<in>set sig. s \<noteq> 0" using assms(3) by fastforce
  have W: "0 < ?W" by (rule weights_pos [OF assms(1,2) nz])
  have w: "0 \<le> ?w i" for i by simp
  have lo: "Min (set rho) * ?W \<le> ?A"
    unfolding sum_distrib_left
  proof (rule sum_mono)
    fix i assume "i \<in> {..<length rho}"
    then have "Min (set rho) \<le> rho ! i" by simp
    from mult_right_mono [OF this w [of i]]
    show "Min (set rho) * ?w i \<le> rho ! i / (sig ! i * sig ! i)" by simp
  qed
  have hi: "?A \<le> Max (set rho) * ?W"
    unfolding sum_distrib_left
  proof (rule sum_mono)
    fix i assume "i \<in> {..<length rho}"
    then have "rho ! i \<le> Max (set rho)" by simp
    from mult_right_mono [OF this w [of i]]
    show "rho ! i / (sig ! i * sig ! i) \<le> Max (set rho) * ?w i" by simp
  qed
  have "Min (set rho) \<le> ?A / ?W" using lo W by (simp add: pos_le_divide_eq)
  moreover have "?A / ?W \<le> Max (set rho)" using hi W by (simp add: pos_divide_le_eq)
  ultimately show ?thesis
    using weightedavg_index_form [OF assms(1,2) nz] by blast
qed

theorem weightedavg_within_range_witness:
  "[1, 3] \<noteq> ([]::real list) \<and> length [1, 3::real] = length [1, 2::real] \<and>
   list_all (\<lambda>s. 0 < s) [1, 2::real] \<and>
   (\<exists>mu sigma_mu. weightedavg [1, 3] [1, 2] = Inr (mu, sigma_mu) \<and>
      Min (set [1, 3]) \<le> mu \<and> mu \<le> Max (set [1, 3]))"
proof -
  have h1: "[1, 3] \<noteq> ([]::real list)" by simp
  have h2: "length [1, 3::real] = length [1, 2::real]" by simp
  have h3: "\<forall>s\<in>set [1, 2::real]. 0 < s" by simp
  from weightedavg_within_range [OF h1 h2 h3] h1 h2 show ?thesis by simp
qed

section \<open>Rounding in the weighted average\<close>

lemmas double_eval = round_double_def quantize_def pack_def exponent_def rne_def ilog2_def
  neg_log2_def pow2_def log2_ge1_def

text \<open>
  Some values of the rounding, as the machine gives them: \<open>1/49\<close> and \<open>0.1 + 0.2\<close>,
  the overflow of \<open>2^1024\<close>, the largest double, and the smallest numbers.
\<close>

lemma round_double_examples:
  "round_double (1 / 49) = Finite (5882252574524729 / 288230376151711744)"
  "round_double (3602879701896397 / 36028797018963968 + 3602879701896397 / 18014398509481984)
     = Finite (1351079888211149 / 4503599627370496)"
  "round_double (2 ^ 1024) = PInf"
  "round_double (2 ^ 1024 - 2 ^ 971) = Finite (2 ^ 1024 - 2 ^ 971)"
  "round_double (- (2 ^ 1024 - 2 ^ 970)) = NInf"
  "round_double (1 / 2 ^ 1075) = Finite 0"
  "round_double (3 / 2 ^ 1075) = Finite (1 / 2 ^ 1073)"
  by (simp_all add: double_eval)

text \<open>
  A zero uncertainty in a numpy array raises nothing: the weight is infinite,
  the mean is \<open>nan\<close> and its uncertainty \<open>0\<close>.
\<close>

lemma weightedavg_f64_zero_sigma:
  "weightedavg_f64 [Finite 1] [Finite 0] = Inr (NaN, Finite 0)"
  by (simp add: weightedavg_f64_def round_double_def)

lemma weightedavg_f64_loop_3_3:
  "weightedavg_f64_loop (Finite 0, Finite 0) [(Finite 3, Finite 2), (Finite 3, Finite 7)] =
     (Finite (1217810103319573 / 4503599627370496), Finite (7306860619917437 / 9007199254740992))"
  by (simp add: double_eval)

lemma ddiv_3_3:
  "ddiv (Finite (7306860619917437 / 9007199254740992)) (Finite (1217810103319573 / 4503599627370496))
     = Finite (6755399441055743 / 2251799813685248)"
  by (simp add: double_eval)

text \<open>
  C7 as stated fails in double precision. For \<open>rho = [3, 3]\<close> and
  \<open>sig = [2, 7]\<close> the loop ends with \<open>weights = fl(1/4 + fl(1/49))\<close> and
  \<open>avg = fl(3/4 + fl(3/49))\<close>, and the quotient rounds to
  \<open>3 - 2^-51 = 2.9999999999999996\<close>, below the smallest entry of \<open>rho\<close>.
\<close>

theorem weightedavg_f64_below_min_counterexample:
  "map_sum id fst (weightedavg_f64 [Finite 3, Finite 3] [Finite 2, Finite 7]) =
     Inr (Finite (6755399441055743 / 2251799813685248)) \<and>
   (6755399441055743 / 2251799813685248 :: real) = 3 - 1 / 2 ^ 51 \<and>
   (6755399441055743 / 2251799813685248 :: real) < Min (set [3, 3])"
  by (simp add: weightedavg_f64_def weightedavg_f64_loop_3_3 ddiv_3_3
      del: weightedavg_f64_loop.simps ddiv.simps dsqrt.simps)

section \<open>Properties of the fixed-width binning\<close>

lemma weightedavg_loop_error:
  "weightedavg_loop acc ps = Inl e \<Longrightarrow> e = ZeroDivisionError"
proof (induction ps arbitrary: acc)
  case Nil
  then show ?case by (cases acc) simp
next
  case (Cons p ps)
  then show ?case by (cases acc; cases p) (auto split: if_splits)
qed

lemma weightedavg_error: "weightedavg rho sig = Inl e \<Longrightarrow> e = ZeroDivisionError"
  by (auto simp: weightedavg_def split: sum.splits prod.splits if_splits
      dest: weightedavg_loop_error)

lemma weightedavg_Nil: "weightedavg [] sig = Inl ZeroDivisionError"
  by (simp add: weightedavg_def)

lemma bin_crosscorr_loop_error:
  "bin_crosscorr_loop izs xi rho sig acc = Inl e \<Longrightarrow> e = ZeroDivisionError"
proof (induction izs arbitrary: acc)
  case Nil
  then show ?case by (cases acc) simp
next
  case (Cons p izs)
  then show ?case
    by (cases acc; cases p) (auto split: sum.splits prod.splits dest: weightedavg_error)
qed

lemma bin_crosscorr_loop_empty_bin:
  "(i, z) \<in> set izs \<Longrightarrow> bin_pairs z xi rho sig = [] \<Longrightarrow>
   bin_crosscorr_loop izs xi rho sig acc = Inl ZeroDivisionError"
proof (induction izs arbitrary: acc)
  case Nil
  then show ?case by simp
next
  case (Cons p izs)
  obtain j y where p: "p = (j, y)" by (cases p)
  obtain ra sa where acc: "acc = (ra, sa)" by (cases acc)
  show ?case
  proof (cases "weightedavg (myrhos y xi rho sig) (mysigs y xi rho sig)")
    case (Inl e)
    then show ?thesis using weightedavg_error [OF Inl] by (simp add: p acc)
  next
    case (Inr rs)
    have "(i, z) \<noteq> (j, y)"
    proof
      assume "(i, z) = (j, y)"
      with Cons.prems(2) Inr show False by (simp add: myrhos_def weightedavg_Nil)
    qed
    with Cons.prems(1) p have "(i, z) \<in> set izs" by auto
    from Cons.IH [OF this Cons.prems(2)] Inr show ?thesis
      by (simp add: p acc split: prod.splits)
  qed
qed

lemma bin_crosscorr_empty_bin:
  assumes "Suc k < length zeta" "bin_pairs (zeta ! k) xi rho sig = []"
  shows "bin_crosscorr zeta xi rho sig = Inl ZeroDivisionError"
proof -
  have "(k, zeta ! k) \<in> set (enumerate 0 (butlast zeta))"
    using assms(1) by (simp add: in_set_enumerate_eq nth_butlast)
  from bin_crosscorr_loop_empty_bin [OF this assms(2)] show ?thesis
    by (simp add: bin_crosscorr_def)
qed

lemma bin_crosscorr_loop_untouched:
  "bin_crosscorr_loop izs xi rho sig (ra, sa) = Inr (ra', sa') \<Longrightarrow>
   list_all (\<lambda>(i, z). i \<noteq> m) izs \<Longrightarrow>
   ra' ! m = ra ! m \<and> sa' ! m = sa ! m \<and> length ra' = length ra \<and> length sa' = length sa"
proof (induction izs arbitrary: ra sa)
  case Nil
  then show ?case by simp
next
  case (Cons p izs)
  obtain j y where p: "p = (j, y)" by (cases p)
  from Cons.prems(2) p have j: "j \<noteq> m" and rest: "list_all (\<lambda>(i, z). i \<noteq> m) izs"
    by simp_all
  from Cons.prems(1) p obtain r s where
    step: "bin_crosscorr_loop izs xi rho sig (ra[j := r], sa[j := s]) = Inr (ra', sa')"
    by (auto split: sum.splits prod.splits)
  from Cons.IH [OF step rest] j show ?case by simp
qed

lemma bin_crosscorr_last_slot:
  assumes "bin_crosscorr zeta xi rho sig = Inr (ra, sa)" "zeta \<noteq> []"
  shows "length ra = length zeta \<and> length sa = length zeta \<and>
         ra ! (length zeta - 1) = 0 \<and> sa ! (length zeta - 1) = 0"
proof -
  have "list_all (\<lambda>(i, z). i \<noteq> length zeta - 1) (enumerate 0 (butlast zeta))"
    by (auto simp: list_all_iff in_set_enumerate_eq)
  from bin_crosscorr_loop_untouched [OF assms(1) [unfolded bin_crosscorr_def] this] assms(2)
  show ?thesis by simp
qed

text \<open>
  C5. A bin without member pairs must give an explicit empty or undefined result,
  never a silent zero. For a bin that the loop visits this holds
  (\<open>bin_crosscorr_empty_bin\<close>: the call ends in \<open>ZeroDivisionError\<close>). But the
  result arrays have one slot for each entry of \<open>zeta\<close> and the loop leaves out
  the last entry, so the last slot always keeps the zeros it was created with
  (\<open>bin_crosscorr_last_slot\<close>). With \<open>zeta = [0, 10]\<close> and one pair at
  \<open>xi = 5\<close>, no pair lies in the range that starts at \<open>10\<close>, and the operation
  reports mean \<open>0\<close> and uncertainty \<open>0\<close> in that slot.
\<close>

theorem bin_crosscorr_silent_zero:
  "bin_pairs 10 [5] [1] [1] = [] \<and>
   bin_crosscorr [0, 10] [5] [1] [1] = Inr ([1, 0], [1, 0])"
  by (simp add: bin_crosscorr_def bin_pairs_def in_bin_def myrhos_def mysigs_def weightedavg_def)

text \<open>
  C10. A triple belongs to the bin that starts at \<open>z\<close> exactly when
  \<open>z \<le> xi < z + 10\<close>, whatever the distance between the entries of \<open>zeta\<close>.
  With \<open>zeta = [0, 5, 10]\<close> the entries are 5 apart, and the single pair at
  \<open>xi = 7\<close> is a member of the bin that starts at 0 and of the bin that starts at
  5; its \<open>rho = 2\<close> is the weighted average of both bins.
\<close>

theorem bin_crosscorr_bins_overlap:
  "((x, r, s) \<in> set (bin_pairs z xi rho sig) \<longleftrightarrow>
      (x, r, s) \<in> set (zip xi (zip rho sig)) \<and> z \<le> x \<and> x < z + 10) \<and>
   bin_pairs 0 [7] [2] [1] = [(7, 2, 1)] \<and>
   bin_pairs 5 [7] [2] [1] = [(7, 2, 1)] \<and>
   bin_crosscorr [0, 5, 10] [7] [2] [1] = Inr ([2, 2, 0], [1, 1, 0])"
  by (auto simp add: bin_crosscorr_def bin_pairs_def in_bin_def myrhos_def mysigs_def weightedavg_def)

section \<open>Properties of the burn-in cut\<close>

lemma loadtxt_Matrix:
  assumes "2 \<le> length rows" "2 \<le> c" "list_all (\<lambda>r. length r = c) rows"
  shows "loadtxt rows = Inr (Matrix rows)"
proof -
  from assms(1) obtain r r' rs where rows: "rows = r # r' # rs"
    by (cases rows; cases "tl rows") auto
  from assms(3) rows have "length r = c" "list_all (\<lambda>r. length r = c) (r' # rs)"
    by simp_all
  then have "\<not> list_ex (\<lambda>x. length x \<noteq> length r) (r' # rs)"
    by (auto simp: list_all_iff list_ex_iff)
  then show ?thesis
    using assms(2) \<open>length r = c\<close> by (simp add: loadtxt_def rows)
qed

lemma chain_burn_Matrix:
  "chain_burn (Matrix rows) = Inr (drop (nat \<lfloor>1 / 4 * real (length rows)\<rfloor>) rows)"
proof -
  let ?n = "length rows"
  have "1 / 4 * real ?n \<le> real ?n" by simp
  then have "\<lfloor>1 / 4 * real ?n\<rfloor> \<le> int ?n" by (simp add: floor_le_iff)
  moreover have "0 \<le> \<lfloor>1 / 4 * real ?n\<rfloor>" by simp
  ultimately show ?thesis
    by (simp add: chain_burn_def burn_def shape0_def py_int_def slice_from_def min_def)
qed

lemma trim_one_row: "trim [r] = Inl IndexError"
  by (simp add: trim_def loadtxt_def chain_burn_def burn_def shape0_def)

text \<open>
  C4, as the code has it. The burn fraction is the literal \<open>0.25\<close>. For a chain
  file with at least two rows, of at least two columns each, the cut returns the
  rows from index \<open>floor (0.25 * num_rows)\<close> on; a chain of four rows keeps its
  rows 1, 2 and 3. For a file without rows or with a single row \<open>np.loadtxt\<close>
  returns an array of fewer than two dimensions, and the cut fails with
  \<open>IndexError\<close>.
\<close>

theorem trim_suffix:
  "(2 \<le> length rows \<and> 2 \<le> c \<and> list_all (\<lambda>r. length r = c) rows \<longrightarrow>
      trim rows = Inr (drop (nat \<lfloor>1 / 4 * real (length rows)\<rfloor>) rows)) \<and>
   (2 \<le> c \<and> list_all (\<lambda>r. length r = c) [r0, r1, r2, r3] \<longrightarrow>
      trim [r0, r1, r2, r3] = Inr [r1, r2, r3]) \<and>
   trim [] = Inl IndexError \<and>
   trim [r] = Inl IndexError"
proof -
  have general: "trim rows = Inr (drop (nat \<lfloor>1 / 4 * real (length rows)\<rfloor>) rows)"
    if "2 \<le> length rows" "2 \<le> c" "list_all (\<lambda>r. length r = c) rows" for rows
    using loadtxt_Matrix [OF that] by (simp add: trim_def chain_burn_Matrix)
  have four: "trim [r0, r1, r2, r3] = Inr [r1, r2, r3]"
    if "2 \<le> c" "list_all (\<lambda>r. length r = c) [r0, r1, r2, r3]"
    using general [OF _ that] by simp
  have none: "trim [] = Inl IndexError"
    by (simp add: trim_def loadtxt_def chain_burn_def burn_def shape0_def py_int_def)
  from general four none trim_one_row [of r] show ?thesis by blast
qed

theorem trim_suffix_witness:
  "(2::nat) \<le> length [[1, 10], [2, 20], [3, 30], [4, 40], [5, 50 :: real]] \<and> (2::nat) \<le> 2 \<and>
   list_all (\<lambda>r. length r = 2) [[1, 10], [2, 20], [3, 30], [4, 40], [5, 50 :: real]] \<and>
   trim [[1, 10], [2, 20], [3, 30], [4, 40], [5, 50]] = Inr [[2, 20], [3, 30], [4, 40], [5, 50]]"
proof -
  let ?rows = "[[1, 10], [2, 20], [3, 30], [4, 40], [5, 50 :: real]]"
  have h: "2 \<le> length ?rows \<and> (2::nat) \<le> 2 \<and> list_all (\<lambda>r. length r = 2) ?rows"
    by simp
  have f: "\<lfloor>5 / 4 :: real\<rfloor> = 1" by (simp add: floor_eq_iff)
  from trim_suffix [where rows = ?rows and c = 2, THEN conjunct1, THEN mp, OF h]
  have "trim ?rows = Inr (drop (nat \<lfloor>1 / 4 * real (length ?rows)\<rfloor>) ?rows)" .
  then have "trim ?rows = Inr [[2, 20], [3, 30], [4, 40], [5, 50]]" by (simp add: f)
  with h show ?thesis by blast
qed

text \<open>
  C4 as stated gives, for a chain of one row, the suffix from index
  \<open>floor (0.25 * 1) = 0\<close>, that is the row itself. The code fails on such a
  chain: \<open>np.loadtxt\<close> returns the row as a one-dimensional array of five
  numbers, \<open>burn\<close> is \<open>int(0.25 * 5) = 1\<close>, and \<open>chain[burn:,:]\<close> raises
  \<open>IndexError\<close>.
\<close>

theorem trim_one_row_counterexample:
  "loadtxt [[1, 2, 3, 4, 5]] = Inr (Vector [1, 2, 3, 4, 5]) \<and>
   burn (Vector [1, 2, 3, 4, 5]) = Inr 1 \<and>
   trim [[1, 2, 3, 4, 5]] = Inl IndexError \<and>
   drop (nat \<lfloor>1 / 4 * real (length [[1, 2, 3, 4, 5 :: real]])\<rfloor>) [[1, 2, 3, 4, 5 :: real]]
     = [[1, 2, 3, 4, 5]]"
proof -
  have f: "\<lfloor>5 / 4 :: real\<rfloor> = 1" by (simp add: floor_eq_iff)
  show ?thesis
    by (simp add: trim_def loadtxt_def chain_burn_def burn_def shape0_def py_int_def f)
qed

section \<open>Properties of the Hellings-Downs curve\<close>

lemma xip_range:
  assumes "0 < (zeta::real)" "zeta \<le> 180"
  shows "0 < (1 - cos (zeta * pi / 180)) / 2" "(1 - cos (zeta * pi / 180)) / 2 \<le> 1"
proof -
  have "0 < zeta * pi / 180" using assms(1) by simp
  moreover have "zeta * pi / 180 \<le> pi" using assms(2) by simp
  ultimately have "cos (zeta * pi / 180) < cos 0"
    by (intro cos_monotone_0_pi) simp_all
  then show "0 < (1 - cos (zeta * pi / 180)) / 2" by simp
  show "(1 - cos (zeta * pi / 180)) / 2 \<le> 1"
    using cos_ge_minus_one [of "zeta * pi / 180"] by simp
qed

lemma get_HD_curve_value:
  assumes "0 < zeta" "zeta \<le> 180"
  shows "get_HD_curve zeta =
    Some (3 / 2 * (1 / 3 + (1 - cos (zeta * pi / 180)) / 2 * (ln ((1 - cos (zeta * pi / 180)) / 2) - 1 / 6)))"
  using xip_range(1) [OF assms] by (simp add: get_HD_curve_def Let_def)

lemma HD_below_half:
  assumes "0 < x" "x \<le> (1::real)"
  shows "3 / 2 * (1 / 3 + x * (ln x - 1 / 6)) < 1 / 2"
proof -
  have "ln x \<le> 0" using assms by simp
  then have "ln x - 1 / 6 < 0" by simp
  with assms(1) have "x * (ln x - 1 / 6) < 0" by (simp add: mult_pos_neg)
  then show ?thesis by simp
qed

lemma x_ln_x_tendsto_0: "((\<lambda>x::real. x * ln x) \<longlongrightarrow> 0) (at_right 0)"
proof -
  have "((\<lambda>y::real. - (ln y / y)) \<longlongrightarrow> - 0) at_top"
    by (intro tendsto_minus ln_x_over_x_tendsto_0)
  moreover have "eventually (\<lambda>y::real. - (ln y / y) = inverse y * ln (inverse y)) at_top"
    using eventually_gt_at_top [of 0]
    by eventually_elim (simp add: ln_inverse divide_inverse)
  ultimately have "((\<lambda>y::real. inverse y * ln (inverse y)) \<longlongrightarrow> 0) at_top"
    by (simp add: tendsto_cong)
  then show ?thesis by (simp add: filterlim_at_right_to_top)
qed

lemma xip_tendsto_0: "((\<lambda>zeta::real. (1 - cos (zeta * pi / 180)) / 2) \<longlongrightarrow> 0) (at_right 0)"
proof -
  have "((\<lambda>zeta::real. (1 - cos (zeta * pi / 180)) / 2) \<longlongrightarrow> (1 - cos (0 * pi / 180)) / 2) (at_right 0)"
    by (intro tendsto_intros) simp_all
  then show ?thesis by simp
qed

lemma in_domain_eventually: "eventually (\<lambda>zeta::real. 0 < zeta \<and> zeta \<le> 180) (at_right 0)"
  by (auto simp: eventually_at_right_field intro!: exI [of _ 180])

lemma get_HD_curve_limit: "((\<lambda>zeta. the (get_HD_curve zeta)) \<longlongrightarrow> 1 / 2) (at_right 0)"
proof -
  let ?x = "\<lambda>zeta::real. (1 - cos (zeta * pi / 180)) / 2"
  have pos: "eventually (\<lambda>zeta. 0 < ?x zeta) (at_right 0)"
    using in_domain_eventually by eventually_elim (rule xip_range(1), simp_all)
  have "filterlim ?x (at_right 0) (at_right 0)"
    by (rule tendsto_imp_filterlim_at_right [OF xip_tendsto_0 pos])
  then have xlnx: "((\<lambda>zeta. ?x zeta * ln (?x zeta)) \<longlongrightarrow> 0) (at_right 0)"
    by (rule filterlim_compose [OF x_ln_x_tendsto_0])
  have "((\<lambda>zeta. 3 / 2 * (1 / 3 + (?x zeta * ln (?x zeta) - ?x zeta * (1 / 6))))
          \<longlongrightarrow> 3 / 2 * (1 / 3 + (0 - 0 * (1 / 6)))) (at_right 0)"
    by (intro tendsto_intros xlnx xip_tendsto_0)
  then have lim: "((\<lambda>zeta. 3 / 2 * (1 / 3 + ?x zeta * (ln (?x zeta) - 1 / 6)))
          \<longlongrightarrow> 1 / 2) (at_right 0)"
    by (simp add: right_diff_distrib)
  have "eventually (\<lambda>zeta. 3 / 2 * (1 / 3 + ?x zeta * (ln (?x zeta) - 1 / 6))
            = the (get_HD_curve zeta)) (at_right 0)"
    using in_domain_eventually
    by eventually_elim (simp add: get_HD_curve_value)
  with lim show ?thesis by (simp add: tendsto_cong)
qed

lemma get_HD_curve_180: "get_HD_curve 180 = Some (1 / 4)"
  by (simp add: get_HD_curve_def)

text \<open>
  C3. For an angle \<open>zeta\<close> in \<open>(0, 180]\<close> degrees \<open>get_HD_curve\<close> returns
  \<open>(3/2) * (1/3 + x * (ln x - 1/6))\<close> with \<open>x = (1 - cos zeta) / 2\<close>, and this value
  is below \<open>1/2\<close>. The value tends to \<open>1/2\<close> as \<open>zeta\<close> tends to 0 from above, so
  \<open>1/2\<close> is the least upper bound of the curve on its domain. At 180 degrees the
  value is \<open>1/4\<close>, hence within \<open>1e-9\<close> of that reference value.
\<close>

theorem get_HD_curve_template:
  "(\<forall>zeta. 0 < zeta \<and> zeta \<le> 180 \<longrightarrow>
      (\<exists>x. x = (1 - cos (zeta * pi / 180)) / 2 \<and>
           get_HD_curve zeta = Some (3 / 2 * (1 / 3 + x * (ln x - 1 / 6))) \<and>
           3 / 2 * (1 / 3 + x * (ln x - 1 / 6)) < 1 / 2)) \<and>
   ((\<lambda>zeta. the (get_HD_curve zeta)) \<longlongrightarrow> 1 / 2) (at_right 0) \<and>
   get_HD_curve 180 = Some (1 / 4) \<and>
   (\<exists>v. get_HD_curve 180 = Some v \<and> \<bar>v - 1 / 4\<bar> \<le> 1 / 10 ^ 9)"
proof -
  have "\<exists>x. x = (1 - cos (zeta * pi / 180)) / 2 \<and>
           get_HD_curve zeta = Some (3 / 2 * (1 / 3 + x * (ln x - 1 / 6))) \<and>
           3 / 2 * (1 / 3 + x * (ln x - 1 / 6)) < 1 / 2"
    if "0 < zeta \<and> zeta \<le> 180" for zeta
  proof -
    from that have d: "0 < zeta" "zeta \<le> 180" by simp_all
    from get_HD_curve_value [OF d] HD_below_half [OF xip_range [OF d]]
    show ?thesis by blast
  qed
  moreover have "\<exists>v. get_HD_curve 180 = Some v \<and> \<bar>v - 1 / 4\<bar> \<le> 1 / 10 ^ 9"
    by (rule exI [of _ "1 / 4"]) (simp add: get_HD_curve_180)
  ultimately show ?thesis
    using get_HD_curve_limit get_HD_curve_180 by blast
qed

theorem get_HD_curve_template_witness:
  "(0::real) < 90 \<and> (90::real) \<le> 180 \<and>
   get_HD_curve 90 = Some (3 / 2 * (1 / 3 + 1 / 2 * (ln (1 / 2) - 1 / 6))) \<and>
   3 / 2 * (1 / 3 + 1 / 2 * (ln (1 / 2) - 1 / 6)) < (1 / 2 :: real)"
proof -
  have h: "(0::real) < 90 \<and> (90::real) \<le> 180" by simp
  have c: "cos (90 * pi / 180) = 0" by (simp add: cos_pi_half)
  from get_HD_curve_template [THEN conjunct1, THEN spec, THEN mp, OF h]
  obtain x where x: "x = (1 - cos (90 * pi / 180)) / 2"
    and v: "get_HD_curve 90 = Some (3 / 2 * (1 / 3 + x * (ln x - 1 / 6)))"
    and b: "3 / 2 * (1 / 3 + x * (ln x - 1 / 6)) < 1 / 2"
    by blast
  have x2: "x = 1 / 2" unfolding x c by simp
  from v b h show ?thesis unfolding x2 by blast
qed

section \<open>Properties of the upper limit\<close>

lemma floor_index:
  assumes "0 \<le> (h::real)"
  shows "real (nat \<lfloor>h\<rfloor>) \<le> h" "h < real (nat \<lfloor>h\<rfloor>) + 1"
proof -
  have "0 \<le> \<lfloor>h\<rfloor>" using assms by simp
  then have eq: "real (nat \<lfloor>h\<rfloor>) = of_int \<lfloor>h\<rfloor>" by simp
  show "real (nat \<lfloor>h\<rfloor>) \<le> h" unfolding eq by (rule of_int_floor_le)
  show "h < real (nat \<lfloor>h\<rfloor>) + 1" unfolding eq by linarith
qed

lemma floor_index_le:
  assumes "0 \<le> (h::real)" "h \<le> real m"
  shows "nat \<lfloor>h\<rfloor> \<le> m"
proof -
  have "\<lfloor>h\<rfloor> \<le> int m" using assms(2) by (simp add: floor_le_iff)
  then show ?thesis by simp
qed

lemma lerp_between:
  fixes a :: "real list"
  assumes "sorted a" "a \<noteq> []" "0 \<le> h" "h \<le> real (length a - 1)"
  defines "lo \<equiv> nat \<lfloor>h\<rfloor>"
  defines "hi \<equiv> min (lo + 1) (length a - 1)"
  shows "a ! lo \<le> a ! lo + (h - real lo) * (a ! hi - a ! lo)"
    and "a ! lo + (h - real lo) * (a ! hi - a ! lo) \<le> a ! hi"
proof -
  have lo: "lo \<le> length a - 1" unfolding lo_def by (rule floor_index_le [OF assms(3,4)])
  moreover have "0 < length a" using assms(2) by simp
  ultimately have "lo \<le> hi" "hi < length a" unfolding hi_def by arith+
  then have d: "0 \<le> a ! hi - a ! lo" using sorted_nth_mono [OF assms(1), of lo hi] by simp
  have f0: "0 \<le> h - real lo" and f1: "h - real lo \<le> 1"
    using floor_index [OF assms(3)] unfolding lo_def by linarith+
  show "a ! lo \<le> a ! lo + (h - real lo) * (a ! hi - a ! lo)"
    using mult_nonneg_nonneg [OF f0 d] by simp
  have "(h - real lo) * (a ! hi - a ! lo) \<le> 1 * (a ! hi - a ! lo)"
    by (rule mult_right_mono [OF f1 d])
  then show "a ! lo + (h - real lo) * (a ! hi - a ! lo) \<le> a ! hi" by simp
qed

lemma lerp_mono:
  fixes a :: "real list"
  assumes "sorted a" "a \<noteq> []" "0 \<le> h1" "h1 \<le> h2" "h2 \<le> real (length a - 1)"
  shows "a ! nat \<lfloor>h1\<rfloor> + (h1 - real (nat \<lfloor>h1\<rfloor>)) *
           (a ! min (nat \<lfloor>h1\<rfloor> + 1) (length a - 1) - a ! nat \<lfloor>h1\<rfloor>)
       \<le> a ! nat \<lfloor>h2\<rfloor> + (h2 - real (nat \<lfloor>h2\<rfloor>)) *
           (a ! min (nat \<lfloor>h2\<rfloor> + 1) (length a - 1) - a ! nat \<lfloor>h2\<rfloor>)"
    (is "?v1 \<le> ?v2")
proof -
  let ?l1 = "nat \<lfloor>h1\<rfloor>" and ?l2 = "nat \<lfloor>h2\<rfloor>"
  let ?k1 = "min (?l1 + 1) (length a - 1)" and ?k2 = "min (?l2 + 1) (length a - 1)"
  have h2: "0 \<le> h2" and h1: "h1 \<le> real (length a - 1)" using assms(3,4,5) by simp_all
  have l12: "?l1 \<le> ?l2" using assms(4) by (simp add: floor_mono nat_mono)
  have l2: "?l2 \<le> length a - 1" by (rule floor_index_le [OF h2 assms(5)])
  show ?thesis
  proof (cases "?l1 = ?l2")
    case True
    have "0 < length a" using assms(2) by simp
    with l2 have "?l2 \<le> ?k2" "?k2 < length a" by arith+
    then have d: "0 \<le> a ! ?k2 - a ! ?l2"
      using sorted_nth_mono [OF assms(1), of ?l2 ?k2] by simp
    have "(h1 - real ?l2) * (a ! ?k2 - a ! ?l2) \<le> (h2 - real ?l2) * (a ! ?k2 - a ! ?l2)"
      by (rule mult_right_mono [OF _ d]) (use assms(4) in simp)
    then show ?thesis unfolding True by simp
  next
    case False
    with l12 have "?l1 + 1 \<le> ?l2" by simp
    with l2 have "?k1 \<le> ?l2" by simp
    moreover have "?l2 < length a" using l2 assms(2) by (cases a) simp_all
    ultimately have mid: "a ! ?k1 \<le> a ! ?l2" by (rule sorted_nth_mono [OF assms(1)])
    have "?v1 \<le> a ! ?k1" by (rule lerp_between(2) [OF assms(1,2,3) h1])
    also note mid
    also have "a ! ?l2 \<le> ?v2" by (rule lerp_between(1) [OF assms(1,2) h2 assms(5)])
    finally show ?thesis .
  qed
qed

lemma percentile_value:
  assumes "samples \<noteq> []" "0 \<le> q" "q \<le> 100"
  shows "percentile samples q =
    Inr (sort samples ! nat \<lfloor>real (length samples - 1) * q / 100\<rfloor> +
         (real (length samples - 1) * q / 100 - real (nat \<lfloor>real (length samples - 1) * q / 100\<rfloor>)) *
         (sort samples ! min (nat \<lfloor>real (length samples - 1) * q / 100\<rfloor> + 1) (length (sort samples) - 1) -
          sort samples ! nat \<lfloor>real (length samples - 1) * q / 100\<rfloor>))"
  using assms by (simp add: percentile_def Let_def)

text \<open>
  C9. For samples that are not empty and percentiles \<open>q1 \<le> q2\<close> in \<open>[0, 100]\<close>,
  the upper limit at \<open>q1\<close> is at most the upper limit at \<open>q2\<close>: the interpolated
  percentile of the sorted samples does not decrease with \<open>q\<close>, and neither does
  the power of ten.
\<close>

theorem upper_mono:
  assumes "samples \<noteq> []" "0 \<le> q1" "q1 \<le> q2" "q2 \<le> 100"
  shows "\<exists>u1 u2. upper samples q1 = Inr u1 \<and> upper samples q2 = Inr u2 \<and> u1 \<le> u2"
proof -
  let ?a = "sort samples"
  let ?m = "real (length samples - 1)"
  have "length ?a = length samples" by simp
  with assms(1) have ne: "?a \<noteq> []" by (metis length_0_conv)
  have a: "sorted ?a" "?a \<noteq> []" using ne by simp_all
  have q1: "q1 \<le> 100" and q2: "0 \<le> q2" using assms(2,3,4) by simp_all
  have b0: "0 \<le> ?m * q1 / 100" using assms(2) by simp
  have b1: "?m * q1 / 100 \<le> ?m * q2 / 100"
    using assms(3) by (simp add: mult_left_mono divide_right_mono)
  have "?m * q2 \<le> ?m * 100" by (rule mult_left_mono) (use assms(4) in simp_all)
  then have b2: "?m * q2 / 100 \<le> real (length ?a - 1)" by simp
  from lerp_mono [OF a b0 b1 b2]
  obtain p1 p2 where "percentile samples q1 = Inr p1" "percentile samples q2 = Inr p2" "p1 \<le> p2"
    unfolding percentile_value [OF assms(1,2) q1] percentile_value [OF assms(1) q2 assms(4)]
    by simp
  then show ?thesis by (simp add: upper_def)
qed

theorem upper_mono_witness:
  "[-15, -14.5, -14.8] \<noteq> ([] :: real list) \<and> (0::real) \<le> 90 \<and> (90::real) \<le> 95 \<and> (95::real) \<le> 100 \<and>
   (\<exists>u1 u2. upper [-15, -14.5, -14.8] 90 = Inr u1 \<and> upper [-15, -14.5, -14.8] 95 = Inr u2 \<and> u1 \<le> u2)"
proof -
  have h1: "[-15, -14.5, -14.8] \<noteq> ([] :: real list)" by simp
  have h2: "(0::real) \<le> 90" and h3: "(90::real) \<le> 95" and h4: "(95::real) \<le> 100" by simp_all
  from upper_mono [OF h1 h2 h3 h4] h1 h2 h3 h4 show ?thesis by blast
qed

text \<open>
  The specification's scenario: the percentile 100 of three samples is the
  largest of them.
\<close>

lemma upper_example: "upper [-14.5, -14.8, -15] 100 = Inr (10 powr (-14.5))"
  by (simp add: upper_def percentile_def Let_def)

section \<open>Properties of the fixed-count binning\<close>

lemma bins_count_step:
  fixes n i m :: nat
  assumes "0 < n" "i < m"
  shows "(m - i + n - 1) div n = Suc ((m - (i + n) + n - 1) div n)"
proof (cases "m - i \<le> n")
  case True
  have "(m - i + n - 1) div n = 1"
    by (rule div_nat_eqI) (use assms True in simp_all)
  moreover have "(m - (i + n) + n - 1) div n = 0"
    using True assms(1) by simp
  ultimately show ?thesis by simp
next
  case False
  then have e: "m - i + n - 1 = (m - (i + n) + n - 1) + n" by simp
  have "((m - (i + n) + n - 1) + n) div n = (m - (i + n) + n - 1) div n + 1"
    by (rule div_add_self2) (use assms(1) in simp)
  then show ?thesis by (simp only: e Suc_eq_plus1)
qed

lemma bins_count_more:
  fixes n i m :: nat
  assumes "0 < n" "0 < (m - (i + n) + n - 1) div n"
  shows "n \<le> m - i"
proof (rule ccontr)
  assume "\<not> n \<le> m - i"
  then have "m - (i + n) + n - 1 < n" using assms(1) by simp
  then have "(m - (i + n) + n - 1) div n = 0" by simp
  with assms(2) show False by simp
qed

lemma ceiling_div_nat:
  fixes m n :: nat
  assumes "0 < n"
  shows "nat \<lceil>real m / real n\<rceil> = (m + n - 1) div n"
proof -
  let ?q = "(m + n - 1) div n"
  have lo: "?q * n \<le> m + n - 1" by simp
  have hi: "m + n - 1 < ?q * n + n"
    using assms by (metis add.commute dividend_less_div_times)
  have "real ?q * real n \<le> real (m + n - 1)" using lo by (metis of_nat_mult of_nat_le_iff)
  also have "\<dots> = real m + real n - 1" using assms by (simp add: of_nat_diff)
  finally have "(real ?q - 1) * real n < real m" by (simp add: algebra_simps)
  then have a: "real ?q - 1 < real m / real n" using assms by (simp add: pos_less_divide_eq)
  from hi have "m \<le> ?q * n" using assms by linarith
  then have "real m \<le> real ?q * real n" by (metis of_nat_mult of_nat_le_iff)
  then have b: "real m / real n \<le> real ?q" using assms by (simp add: pos_divide_le_eq)
  have "\<lceil>real m / real n\<rceil> = int ?q"
    by (rule ceiling_unique) (use a b in simp_all)
  then show ?thesis by simp
qed

lemma slice_ok:
  fixes rs ss :: "real list"
  assumes "0 < n" "i < length rs" "length ss = length rs" "\<forall>s\<in>set ss. s \<noteq> 0"
  shows "\<exists>r s. weightedavg (py_slice rs i (n + i)) (py_slice ss i (n + i)) = Inr (r, s)"
proof -
  have ne: "py_slice rs i (n + i) \<noteq> []" using assms(1,2) by (simp add: py_slice_def)
  have len: "length (py_slice rs i (n + i)) = length (py_slice ss i (n + i))"
    using assms(3) by (simp add: py_slice_def)
  have nz: "\<forall>s\<in>set (py_slice ss i (n + i)). s \<noteq> 0"
    using assms(4) by (auto simp: py_slice_def dest!: in_set_takeD in_set_dropD)
  from weightedavg_index_form [OF ne len nz] show ?thesis by blast
qed

lemma bin_loop_members:
  assumes "0 < n" "length rs = length xs" "length ss = length xs" "\<forall>s\<in>set ss. s \<noteq> 0"
  shows "\<exists>st' bs. bin_loop n xs rs ss i st = Inr st' \<and>
           members st' = members st @ bs \<and>
           concat bs = drop i (zip xs (zip rs ss)) \<and>
           length bs = (length xs - i + n - 1) div n \<and>
           (\<forall>k. Suc k < length bs \<longrightarrow> length (bs ! k) = n) \<and>
           length (xi_mean st') = length (xi_mean st) + length bs \<and>
           length (xi_err st') = length (xi_err st) + length bs \<and>
           length (rho_avg st') = length (rho_avg st) + length bs \<and>
           length (sig_avg st') = length (sig_avg st) + length bs"
proof (induction "length xs - i" arbitrary: i st rule: less_induct)
  case less
  show ?case
  proof (cases "i < length xs")
    case False
    then have "bin_loop n xs rs ss i st = Inr st" by (subst bin_loop.simps) simp
    moreover have "(length xs - i + n - 1) div n = 0" using False assms(1) by simp
    ultimately show ?thesis using False by simp
  next
    case True
    let ?xs = "py_slice xs i (n + i)" and ?rs = "py_slice rs i (n + i)"
      and ?ss = "py_slice ss i (n + i)"
    let ?b = "zip ?xs (zip ?rs ?ss)"
    let ?Z = "zip xs (zip rs ss)"
    from True assms(2) have "i < length rs" by simp
    from slice_ok [OF assms(1) this _ assms(4)] assms(2,3)
    obtain r s where avg: "weightedavg ?rs ?ss = Inr (r, s)" by auto
    let ?st = "add_bin st ?xs ?rs ?ss r s"
    have step: "bin_loop n xs rs ss i st = bin_loop n xs rs ss (i + n) ?st"
      using True avg by (subst bin_loop.simps) simp
    have "length xs - (i + n) < length xs - i" using True assms(1) by simp
    from less [OF this, of ?st]
    obtain st' bs where
      run: "bin_loop n xs rs ss (i + n) ?st = Inr st'" and
      mem: "members st' = members ?st @ bs" and
      cat: "concat bs = drop (i + n) ?Z" and
      cnt: "length bs = (length xs - (i + n) + n - 1) div n" and
      full: "\<forall>k. Suc k < length bs \<longrightarrow> length (bs ! k) = n" and
      l1: "length (xi_mean st') = length (xi_mean ?st) + length bs" and
      l2: "length (xi_err st') = length (xi_err ?st) + length bs" and
      l3: "length (rho_avg st') = length (rho_avg ?st) + length bs" and
      l4: "length (sig_avg st') = length (sig_avg ?st) + length bs"
      by blast
    have b: "?b = take n (drop i ?Z)"
      by (simp add: py_slice_def take_zip drop_zip)
    have d: "drop (i + n) ?Z = drop n (drop i ?Z)" by (simp add: add.commute)
    have "concat (?b # bs) = take n (drop i ?Z) @ drop n (drop i ?Z)"
      by (simp only: concat.simps b cat d)
    then have cat': "concat (?b # bs) = drop i ?Z" by (simp only: append_take_drop_id)
    have cnt': "length (?b # bs) = (length xs - i + n - 1) div n"
      using cnt bins_count_step [OF assms(1) True] by simp
    have full': "length ((?b # bs) ! k) = n" if "Suc k < length (?b # bs)" for k
    proof (cases k)
      case 0
      from that have "0 < length bs" by auto
      with cnt have "n \<le> length xs - i" using bins_count_more [OF assms(1)] by simp
      then show ?thesis using 0 assms(2,3) by (simp add: b)
    next
      case (Suc k')
      with that full show ?thesis by simp
    qed
    have mem': "members st' = members st @ (?b # bs)"
      using mem by (simp add: add_bin_def)
    have run': "bin_loop n xs rs ss i st = Inr st'" using step run by simp
    have full'': "\<forall>k. Suc k < length (?b # bs) \<longrightarrow> length ((?b # bs) ! k) = n"
      using full' by blast
    have l1': "length (xi_mean st') = length (xi_mean st) + length (?b # bs)"
      and l2': "length (xi_err st') = length (xi_err st) + length (?b # bs)"
      and l3': "length (rho_avg st') = length (rho_avg st) + length (?b # bs)"
      and l4': "length (sig_avg st') = length (sig_avg st) + length (?b # bs)"
      using l1 l2 l3 l4 by (simp_all add: add_bin_def)
    show ?thesis
      by (rule exI [of _ st'], rule exI [of _ "?b # bs"])
        (intro conjI run' mem' cat' cnt' full'' l1' l2' l3' l4')
  qed
qed

lemma argsort_indices:
  assumes "mset idx = mset [0..<m]"
  shows "length idx = m" "set idx = {0..<m}"
proof -
  from assms have "size (mset idx) = size (mset [0..<m])" by simp
  then show "length idx = m" by simp
  from assms have "set_mset (mset idx) = set_mset (mset [0..<m])" by simp
  then show "set idx = {0..<m}" by simp
qed

lemma fancy_index_argsort:
  assumes "mset idx = mset [0..<m]" "length a = m"
  shows "fancy_index a idx = Inr (map (\<lambda>i. a ! i) idx)"
  using argsort_indices(2) [OF assms(1)] assms(2)
  by (simp add: fancy_index_def list_all_iff)

lemma zip3_nth:
  assumes "length rho = length xi" "length sig = length xi"
  shows "zip xi (zip rho sig) = map (\<lambda>i. (xi ! i, rho ! i, sig ! i)) [0..<length xi]"
  using assms by (intro nth_equalityI) simp_all

lemma zip3_map:
  "zip (map f idx) (zip (map g idx) (map h idx)) = map (\<lambda>i. (f i, g i, h i)) idx"
  by (induction idx) simp_all

lemma sorted_triples_mset:
  assumes "mset idx = mset [0..<length xi]" "length rho = length xi" "length sig = length xi"
  shows "mset (map (\<lambda>i. (xi ! i, rho ! i, sig ! i)) idx) = mset (zip xi (zip rho sig))"
proof -
  have "mset (map (\<lambda>i. (xi ! i, rho ! i, sig ! i)) idx)
      = image_mset (\<lambda>i. (xi ! i, rho ! i, sig ! i)) (mset idx)" by simp
  also have "\<dots> = image_mset (\<lambda>i. (xi ! i, rho ! i, sig ! i)) (mset [0..<length xi])"
    by (simp only: assms(1))
  also have "\<dots> = mset (map (\<lambda>i. (xi ! i, rho ! i, sig ! i)) [0..<length xi])" by simp
  also have "\<dots> = mset (zip xi (zip rho sig))" by (simp only: zip3_nth [OF assms(2,3)])
  finally show ?thesis .
qed

text \<open>
  C2. For \<open>M\<close> triples, a pair count \<open>n > 0\<close> and an index array that sorts
  \<open>xi\<close>, the binning ends with \<open>ceil (M / n)\<close> bins (in the history variable and
  in each of the four result lists), every bin but the last holds exactly \<open>n\<close>
  triples, and the bins in sequence are the sorted triples: ascending in \<open>xi\<close> and
  the same multiset as the input, nothing dropped and nothing twice. The
  uncertainties are taken to be different from zero, so that every weighted
  average is a real number.
\<close>

theorem fixed_count_binning_partition:
  assumes "0 < n" "length rho = length xi" "length sig = length xi"
    "argsort_of xi idx" "\<forall>s\<in>set sig. s \<noteq> 0"
  shows "\<exists>st. fixed_count_binning idx n xi rho sig = Inr st \<and>
           length (members st) = nat \<lceil>real (length xi) / real n\<rceil> \<and>
           length (xi_mean st) = length (members st) \<and>
           length (xi_err st) = length (members st) \<and>
           length (rho_avg st) = length (members st) \<and>
           length (sig_avg st) = length (members st) \<and>
           (\<forall>k. Suc k < length (members st) \<longrightarrow> length (members st ! k) = n) \<and>
           concat (members st) = map (\<lambda>i. (xi ! i, rho ! i, sig ! i)) idx \<and>
           sorted (map fst (concat (members st))) \<and>
           mset (concat (members st)) = mset (zip xi (zip rho sig))"
proof -
  let ?xs = "map (\<lambda>i. xi ! i) idx" and ?rs = "map (\<lambda>i. rho ! i) idx"
    and ?ss = "map (\<lambda>i. sig ! i) idx"
  let ?T = "map (\<lambda>i. (xi ! i, rho ! i, sig ! i)) idx"
  from assms(4) have perm: "mset idx = mset [0..<length xi]" and srt: "sorted ?xs"
    by (simp_all add: argsort_of_def)
  note ix = argsort_indices [OF perm]
  have start: "fixed_count_binning idx n xi rho sig = bin_loop n ?xs ?rs ?ss 0 no_bins"
    by (simp add: fixed_count_binning_def fancy_index_argsort [OF perm] assms(2,3))
  have nz: "\<forall>s\<in>set ?ss. s \<noteq> 0"
    using assms(3,5) ix(2) by auto
  have "length ?rs = length ?xs" "length ?ss = length ?xs" by simp_all
  from bin_loop_members [OF assms(1) this nz, of 0 no_bins]
  obtain st bs where
    run: "bin_loop n ?xs ?rs ?ss 0 no_bins = Inr st" and
    mem: "members st = members no_bins @ bs" and
    cat: "concat bs = drop 0 (zip ?xs (zip ?rs ?ss))" and
    cnt: "length bs = (length ?xs - 0 + n - 1) div n" and
    full: "\<forall>k. Suc k < length bs \<longrightarrow> length (bs ! k) = n" and
    l1: "length (xi_mean st) = length (xi_mean no_bins) + length bs" and
    l2: "length (xi_err st) = length (xi_err no_bins) + length bs" and
    l3: "length (rho_avg st) = length (rho_avg no_bins) + length bs" and
    l4: "length (sig_avg st) = length (sig_avg no_bins) + length bs"
    by blast
  have m: "members st = bs" using mem by (simp add: no_bins_def)
  have c1: "fixed_count_binning idx n xi rho sig = Inr st" using start run by simp
  have c2: "length (members st) = nat \<lceil>real (length xi) / real n\<rceil>"
    using cnt ix(1) by (simp add: m ceiling_div_nat [OF assms(1)])
  have c3: "length (xi_mean st) = length (members st)"
    and c4: "length (xi_err st) = length (members st)"
    and c5: "length (rho_avg st) = length (members st)"
    and c6: "length (sig_avg st) = length (members st)"
    using l1 l2 l3 l4 by (simp_all add: m no_bins_def)
  have c7: "\<forall>k. Suc k < length (members st) \<longrightarrow> length (members st ! k) = n"
    using full by (simp add: m)
  have c8: "concat (members st) = ?T" using cat by (simp add: m zip3_map)
  have "map fst ?T = ?xs" by simp
  then have c9: "sorted (map fst (concat (members st)))" using srt by (simp only: c8)
  have c10: "mset (concat (members st)) = mset (zip xi (zip rho sig))"
    unfolding c8 by (rule sorted_triples_mset [OF perm assms(2,3)])
  show ?thesis
    by (rule exI [of _ st]) (intro conjI c1 c2 c3 c4 c5 c6 c7 c8 c9 c10)
qed

theorem fixed_count_binning_partition_witness:
  "(0::nat) < 2 \<and> length [1, 2, 3 :: real] = length [3, 1, 2 :: real] \<and>
   length [1, 1, 2 :: real] = length [3, 1, 2 :: real] \<and>
   argsort_of [3, 1, 2] [1, 2, 0] \<and> list_all (\<lambda>s. s \<noteq> 0) [1, 1, 2 :: real] \<and>
   (\<exists>st. fixed_count_binning [1, 2, 0] 2 [3, 1, 2] [1, 2, 3] [1, 1, 2] = Inr st \<and>
      length (members st) = 2 \<and>
      concat (members st) = [(1, 2, 1), (2, 3, 2), (3, 1, 1)])"
proof -
  have h1: "(0::nat) < 2" by simp
  have h2: "length [1, 2, 3 :: real] = length [3, 1, 2 :: real]" by simp
  have h3: "length [1, 1, 2 :: real] = length [3, 1, 2 :: real]" by simp
  have "[0..<3] = [0, 1, 2]" by (simp add: upt_rec)
  then have h4: "argsort_of [3, 1, 2] [1, 2, 0]" by (simp add: argsort_of_def)
  have h5: "\<forall>s\<in>set [1, 1, 2 :: real]. s \<noteq> 0" by simp
  have c: "nat \<lceil>real (length [3, 1, 2 :: real]) / real (2::nat)\<rceil> = 2"
    by (simp add: ceiling_eq_iff) 
  from fixed_count_binning_partition [OF h1 h2 h3 h4 h5]
  obtain st where "fixed_count_binning [1, 2, 0] 2 [3, 1, 2] [1, 2, 3] [1, 1, 2] = Inr st"
    "length (members st) = nat \<lceil>real (length [3, 1, 2 :: real]) / real (2::nat)\<rceil>"
    "concat (members st) = map (\<lambda>i. ([3, 1, 2] ! i, [1, 2, 3] ! i, [1, 1, 2] ! i)) [1, 2, 0]"
    by blast
  then have "\<exists>st. fixed_count_binning [1, 2, 0] 2 [3, 1, 2] [1, 2, 3] [1, 1, 2] = Inr st \<and>
      length (members st) = 2 \<and>
      concat (members st) = [(1, 2, 1), (2, 3, 2), (3, 1, 1)]"
    unfolding c by (intro exI [of _ st]) simp
  with h1 h2 h3 h4 show ?thesis by simp
qed

text \<open>
  The sums of \<open>weightedavg\<close> do not depend on the order of the pairs.
\<close>

lemma sum_list_argsort:
  fixes g :: "nat \<Rightarrow> real"
  assumes "mset idx = mset [0..<m]"
  shows "sum_list (map g idx) = sum_list (map g [0..<m])"
proof -
  have "sum_list (map g idx) = sum_mset (image_mset g (mset idx))"
    by (simp add: sum_mset_sum_list [symmetric])
  also have "\<dots> = sum_mset (image_mset g (mset [0..<m]))" by (simp only: assms)
  also have "\<dots> = sum_list (map g [0..<m])"
    by (simp add: sum_mset_sum_list [symmetric])
  finally show ?thesis .
qed

lemma weightedavg_argsort:
  assumes "mset idx = mset [0..<length rho]" "length sig = length rho" "\<forall>s\<in>set sig. s \<noteq> 0"
  shows "weightedavg (map (\<lambda>i. rho ! i) idx) (map (\<lambda>i. sig ! i) idx) = weightedavg rho sig"
proof -
  let ?P = "map (\<lambda>i. (rho ! i, sig ! i)) idx"
  have z1: "zip (map (\<lambda>i. rho ! i) idx) (map (\<lambda>i. sig ! i) idx) = ?P"
    by (induction idx) simp_all
  have z2: "zip rho sig = map (\<lambda>i. (rho ! i, sig ! i)) [0..<length rho]"
    using assms(2) by (intro nth_equalityI) simp_all
  have nz2: "list_all (\<lambda>(r, s). s \<noteq> 0) (zip rho sig)"
    using assms(3) by (auto simp: list_all_iff dest: set_zip_rightD)
  have nz1: "list_all (\<lambda>(r, s). s \<noteq> 0) ?P"
    using assms(2,3) argsort_indices(2) [OF assms(1)] by (auto simp: list_all_iff)
  have s: "(\<Sum>(r, s)\<leftarrow>?P. f r s) = (\<Sum>(r, s)\<leftarrow>zip rho sig. f r s)" for f :: "real \<Rightarrow> real \<Rightarrow> real"
    using sum_list_argsort [OF assms(1), of "\<lambda>i. f (rho ! i) (sig ! i)"]
    by (simp add: z2 comp_def)
  have "weightedavg_loop (0, 0) ?P = weightedavg_loop (0, 0) (zip rho sig)"
    by (simp only: weightedavg_loop_sums [OF nz1] weightedavg_loop_sums [OF nz2] s)
  then show ?thesis by (simp only: weightedavg_def z1)
qed

lemma single_bin:
  assumes "0 < length xi" "length rho = length xi" "length sig = length xi"
    "argsort_of xi idx" "\<forall>s\<in>set sig. s \<noteq> 0"
  shows "\<exists>st mu sigma_mu.
           fixed_count_binning idx (length xi) xi rho sig = Inr st \<and>
           members st = [map (\<lambda>i. (xi ! i, rho ! i, sig ! i)) idx] \<and>
           mset (concat (members st)) = mset (zip xi (zip rho sig)) \<and>
           weightedavg rho sig = Inr (mu, sigma_mu) \<and>
           rho_avg st = [mu] \<and> sig_avg st = [sigma_mu]"
proof -
  let ?n = "length xi"
  let ?xs = "map (\<lambda>i. xi ! i) idx" and ?rs = "map (\<lambda>i. rho ! i) idx"
    and ?ss = "map (\<lambda>i. sig ! i) idx"
  let ?T = "map (\<lambda>i. (xi ! i, rho ! i, sig ! i)) idx"
  from assms(4) have perm: "mset idx = mset [0..<?n]" by (simp add: argsort_of_def)
  note ix = argsort_indices [OF perm]
  note nz = assms(5)
  have ne: "rho \<noteq> []" using assms(1,2) by auto
  from weightedavg_index_form [OF ne _ nz] assms(2,3)
  obtain mu sigma_mu where avg: "weightedavg rho sig = Inr (mu, sigma_mu)" by auto
  have perm': "mset idx = mset [0..<length rho]" using perm assms(2) by simp
  have avg': "weightedavg ?rs ?ss = Inr (mu, sigma_mu)"
    using weightedavg_argsort [OF perm' _ nz] assms(2,3) avg by simp
  have start: "fixed_count_binning idx ?n xi rho sig = bin_loop ?n ?xs ?rs ?ss 0 no_bins"
    by (simp add: fixed_count_binning_def fancy_index_argsort [OF perm] assms(2,3))
  let ?st = "add_bin no_bins ?xs ?rs ?ss mu sigma_mu"
  have sl: "py_slice ?xs 0 ?n = ?xs" "py_slice ?rs 0 ?n = ?rs" "py_slice ?ss 0 ?n = ?ss"
    using ix(1) by (simp_all add: py_slice_def)
  have "bin_loop ?n ?xs ?rs ?ss 0 no_bins = bin_loop ?n ?xs ?rs ?ss (0 + ?n) ?st"
    using assms(1) ix(1) avg' by (subst bin_loop.simps) (simp add: sl)
  also have "\<dots> = Inr ?st"
    using ix(1) by (subst bin_loop.simps) simp
  finally have c1: "fixed_count_binning idx ?n xi rho sig = Inr ?st" using start by simp
  have c2: "members ?st = [?T]" by (simp add: add_bin_def no_bins_def zip3_map)
  have c3: "mset (concat (members ?st)) = mset (zip xi (zip rho sig))"
    unfolding c2 using sorted_triples_mset [OF perm assms(2,3)] by simp
  have c5: "rho_avg ?st = [mu]" and c6: "sig_avg ?st = [sigma_mu]"
    by (simp_all add: add_bin_def no_bins_def)
  show ?thesis
    by (rule exI [of _ ?st], rule exI [of _ mu], rule exI [of _ sigma_mu])
      (intro conjI c1 c2 c3 avg c5 c6)
qed

text \<open>
  C8, in exact arithmetic. With 66 pairs of uncertainties different from zero
  and the notebook's \<open>npairs = 66\<close> the binning produces one bin, which holds all
  the pairs, and the weighted average stored for that bin, computed without
  rounding, is the weighted average of the unsorted input.
\<close>

theorem single_bin_of_66:
  assumes "length xi = 66" "length rho = 66" "length sig = 66"
    "argsort_of xi idx" "\<forall>s\<in>set sig. s \<noteq> 0"
  shows "\<exists>st mu sigma_mu.
           fixed_count_binning idx npairs xi rho sig = Inr st \<and>
           members st = [map (\<lambda>i. (xi ! i, rho ! i, sig ! i)) idx] \<and>
           mset (concat (members st)) = mset (zip xi (zip rho sig)) \<and>
           weightedavg rho sig = Inr (mu, sigma_mu) \<and>
           rho_avg st = [mu] \<and> sig_avg st = [sigma_mu]"
proof -
  have n: "npairs = length xi" using assms(1) by (simp add: npairs_def)
  have "0 < length xi" "length rho = length xi" "length sig = length xi"
    using assms(1,2,3) by simp_all
  from single_bin [OF this assms(4,5)] show ?thesis unfolding n .
qed

lemma argsort_descending:
  "argsort_of (map (\<lambda>i. real (65 - i)) [0..<66]) (rev [0..<66])"
proof -
  have "map (\<lambda>i. map (\<lambda>i. real (65 - i)) [0..<66] ! i) (rev [0..<66]) = map real [0..<66]"
  proof (rule nth_equalityI)
    show "length (map (\<lambda>i. map (\<lambda>i. real (65 - i)) [0..<66] ! i) (rev [0..<66]))
        = length (map real [0..<66])" by simp
  next
    fix k
    assume "k < length (map (\<lambda>i. map (\<lambda>i. real (65 - i)) [0..<66] ! i) (rev [0..<66]))"
    then have k: "k < 66" by simp
    have a: "rev [0..<66] ! k = 65 - k" using k by (simp add: rev_nth)
    have "65 - k < 66" by simp
    then have b: "map (\<lambda>i. real (65 - i)) [0..<66] ! (65 - k) = real (65 - (65 - k))"
      by (simp del: of_nat_diff)
    have c: "65 - (65 - k) = k" using k by simp
    have "map (\<lambda>i. map (\<lambda>i. real (65 - i)) [0..<66] ! i) (rev [0..<66]) ! k
        = map (\<lambda>i. real (65 - i)) [0..<66] ! (rev [0..<66] ! k)"
      using k by (simp only: nth_map length_rev length_upt)
    also have "\<dots> = real k" by (simp only: a b c)
    also have "\<dots> = map real [0..<66] ! k" using k by simp
    finally show "map (\<lambda>i. map (\<lambda>i. real (65 - i)) [0..<66] ! i) (rev [0..<66]) ! k
        = map real [0..<66] ! k" .
  qed
  moreover have "sorted (map real [0..<66])"
    by (simp add: sorted_map sorted_wrt_iff_nth_less)
  ultimately show ?thesis by (simp add: argsort_of_def)
qed

theorem single_bin_of_66_witness:
  "length (map (\<lambda>i. real (65 - i)) [0..<66]) = 66 \<and>
   length (map (\<lambda>i. real i) [0..<66]) = 66 \<and>
   length (map (\<lambda>i. real (i mod 6 + 1)) [0..<66]) = 66 \<and>
   argsort_of (map (\<lambda>i. real (65 - i)) [0..<66]) (rev [0..<66]) \<and>
   list_all (\<lambda>s. s \<noteq> 0) (map (\<lambda>i. real (i mod 6 + 1)) [0..<66]) \<and>
   (\<exists>st mu sigma_mu.
      fixed_count_binning (rev [0..<66]) npairs (map (\<lambda>i. real (65 - i)) [0..<66])
        (map (\<lambda>i. real i) [0..<66]) (map (\<lambda>i. real (i mod 6 + 1)) [0..<66]) = Inr st \<and>
      length (members st) = 1 \<and>
      hd (hd (members st)) = (0, 65, 6) \<and>
      weightedavg (map (\<lambda>i. real i) [0..<66]) (map (\<lambda>i. real (i mod 6 + 1)) [0..<66])
        = Inr (mu, sigma_mu) \<and>
      rho_avg st = [mu] \<and> sig_avg st = [sigma_mu])"
proof -
  let ?xi = "map (\<lambda>i. real (65 - i)) [0..<66]"
  let ?rho = "map (\<lambda>i. real i) [0..<66]"
  let ?sig = "map (\<lambda>i. real (i mod 6 + 1)) [0..<66]"
  have h1: "length ?xi = 66" and h2: "length ?rho = 66" and h3: "length ?sig = 66"
    by simp_all
  note h4 = argsort_descending
  have h5: "\<forall>s\<in>set ?sig. s \<noteq> 0" by auto
  have h5': "list_all (\<lambda>s. s \<noteq> 0) ?sig" using h5 by (simp only: list_all_iff)
  from single_bin_of_66 [OF h1 h2 h3 h4 h5]
  obtain st mu sigma_mu where
    run: "fixed_count_binning (rev [0..<66]) npairs ?xi ?rho ?sig = Inr st" and
    mem: "members st = [map (\<lambda>i. (?xi ! i, ?rho ! i, ?sig ! i)) (rev [0..<66])]" and
    avg: "weightedavg ?rho ?sig = Inr (mu, sigma_mu)" and
    ra: "rho_avg st = [mu]" and sa: "sig_avg st = [sigma_mu]"
    by blast
  have "hd (rev [0..<66]) = 65" by (simp add: hd_rev)
  moreover have "rev [0..<66] \<noteq> []" by simp
  ultimately have first: "hd (hd (members st)) = (0, 65, 6)" by (simp add: mem hd_map)
  have one: "length (members st) = 1" by (simp add: mem)
  have "\<exists>st mu sigma_mu.
      fixed_count_binning (rev [0..<66]) npairs ?xi ?rho ?sig = Inr st \<and>
      length (members st) = 1 \<and> hd (hd (members st)) = (0, 65, 6) \<and>
      weightedavg ?rho ?sig = Inr (mu, sigma_mu) \<and>
      rho_avg st = [mu] \<and> sig_avg st = [sigma_mu]"
    by (intro exI [of _ st] exI [of _ mu] exI [of _ sigma_mu] conjI run one first avg ra sa)
  with h1 h2 h3 h4 h5' show ?thesis by blast
qed

text \<open>
  The two sums of the weighted average over 66 pairs with \<open>rho = 7\<close> and
  \<open>sig = 1, 2, 3, 4, 5, 6, 1, 2, ...\<close>, in double precision: in the order of the
  input, and in the reverse order, which is the sorted order when the
  separations \<open>xi\<close> descend.
\<close>

lemma weightedavg_f64_loop_input_order:
  "weightedavg_f64_loop (Finite 0, Finite 0)
     (zip (map (\<lambda>i. Finite 7) [0..<66]) (map (\<lambda>i. Finite (real (i mod 6 + 1))) [0..<66])) =
   (Finite (4617675180431841 / 281474976710656), Finite (4040465782877861 / 35184372088832))"
  by (simp add: upt_rec double_eval)

lemma weightedavg_f64_loop_sorted_order:
  "weightedavg_f64_loop (Finite 0, Finite 0)
     (zip (map (\<lambda>i. Finite 7) (rev [0..<66]))
          (map (\<lambda>i. Finite (real (i mod 6 + 1))) (rev [0..<66]))) =
   (Finite (2308837590215921 / 140737488355328), Finite (4040465782877861 / 35184372088832))"
  by (simp add: upt_rec double_eval)

lemma ddiv_input_order:
  "ddiv (Finite (4040465782877861 / 35184372088832)) (Finite (4617675180431841 / 281474976710656))
     = Finite 7"
  by (simp add: double_eval)

lemma ddiv_sorted_order:
  "ddiv (Finite (4040465782877861 / 35184372088832)) (Finite (2308837590215921 / 140737488355328))
     = Finite (7881299347898367 / 1125899906842624)"
  by (simp add: double_eval)

lemma sorted_arrays_66:
  "map (\<lambda>i. map f [0..<66] ! i) (rev [0..<66]) = map f (rev [0..<66])"
  by simp

text \<open>
  C8 as stated fails in double precision. Take 66 pairs with separations
  \<open>xi = 65, 64, ..., 0\<close>, \<open>rho = 7\<close> and \<open>sig = 1, 2, 3, 4, 5, 6, 1, 2, ...\<close>. The
  sorting reverses the arrays. The weights then add up to a sum that differs in
  the last bit from the sum in the order of the input, and the average of the
  one bin is \<open>7 - 2^-50 = 6.999999999999999\<close>, while the average of the unsorted
  input is \<open>7\<close>.
\<close>

theorem single_bin_f64_counterexample:
  "argsort_of (map (\<lambda>i. real (65 - i)) [0..<66]) (rev [0..<66]) \<and>
   map_sum id fst
     (bin_avg_f64 (rev [0..<66]) npairs 0 (map (\<lambda>i. Finite 7) [0..<66])
        (map (\<lambda>i. Finite (real (i mod 6 + 1))) [0..<66]))
     = Inr (Finite (7881299347898367 / 1125899906842624)) \<and>
   map_sum id fst
     (weightedavg_f64 (map (\<lambda>i. Finite 7) [0..<66])
        (map (\<lambda>i. Finite (real (i mod 6 + 1))) [0..<66]))
     = Inr (Finite 7) \<and>
   (7881299347898367 / 1125899906842624 :: real) = 7 - 1 / 2 ^ 50"
proof -
  have direct: "map_sum id fst
     (weightedavg_f64 (map (\<lambda>i. Finite 7) [0..<66])
        (map (\<lambda>i. Finite (real (i mod 6 + 1))) [0..<66])) = Inr (Finite 7)"
    unfolding weightedavg_f64_def weightedavg_f64_loop_input_order
    by (simp add: ddiv_input_order del: ddiv.simps dsqrt.simps)
  have idx: "list_all (\<lambda>i. i < 66) (rev [0..<66])" by (simp add: list_all_iff)
  have binned: "map_sum id fst
     (bin_avg_f64 (rev [0..<66]) npairs 0 (map (\<lambda>i. Finite 7) [0..<66])
        (map (\<lambda>i. Finite (real (i mod 6 + 1))) [0..<66]))
     = Inr (Finite (7881299347898367 / 1125899906842624))"
  proof -
    have fi: "fancy_index (map f [0..<66]) (rev [0..<66]) = Inr (map f (rev [0..<66]))"
      for f :: "nat \<Rightarrow> double"
      using idx by (simp add: fancy_index_def sorted_arrays_66)
    have sl: "py_slice (map f (rev [0..<66])) 0 (npairs + 0) = map f (rev [0..<66])"
      for f :: "nat \<Rightarrow> double"
      by (simp add: py_slice_def npairs_def)
    have "bin_avg_f64 (rev [0..<66]) npairs 0 (map (\<lambda>i. Finite 7) [0..<66])
        (map (\<lambda>i. Finite (real (i mod 6 + 1))) [0..<66])
      = weightedavg_f64 (map (\<lambda>i. Finite 7) (rev [0..<66]))
          (map (\<lambda>i. Finite (real (i mod 6 + 1))) (rev [0..<66]))"
      by (simp only: bin_avg_f64_def fi sl sum.case)
    then show ?thesis
      unfolding weightedavg_f64_def weightedavg_f64_loop_sorted_order
      by (simp add: ddiv_sorted_order del: ddiv.simps dsqrt.simps)
  qed
  have "(7881299347898367 / 1125899906842624 :: real) = 7 - 1 / 2 ^ 50" by simp
  with argsort_descending binned direct show ?thesis by blast
qed

text \<open>
  The promise of \<open>np.argsort\<close> does not fix the order of equal keys: for two
  equal separations both index arrays satisfy it, the one that keeps the input
  order and the one that reverses it.
\<close>

lemma argsort_of_ties:
  "argsort_of [1, 1] [0, 1] \<and> argsort_of [1, 1] [1, 0]"
proof -
  have "[0..<2] = [0, 1]" by (simp add: upt_rec)
  then show ?thesis by (simp add: argsort_of_def)
qed

end
